theory Spec2Isabelle
  imports Main "HOL-Library.Sublist"
begin

section \<open>Values, objects and the global state of the reactivity core\<close>

text \<open>
  JavaScript values. Objects and arrays are references into the heap, so that the strict
  equality of the source (\<^verbatim>\<open>===\<close>) is identity on references. \<open>NaN\<close> is the one
  value that is not strictly equal to itself; the finite numbers are modelled by integers
  (signed zeros, fractions and infinities play no part in the code modelled here).
\<close>

datatype jsval =
    Undefined
  | Null
  | Bool bool
  | NaN
  | Num int
  | Str string
  | Ref nat


text \<open>
  Property keys. \<open>Idx n\<close> stands for the keys that \<^verbatim>\<open>isValidArrayIndex\<close> accepts (the
  index \<open>n\<close>), \<open>Name s\<close> for every other key.
\<close>

datatype jskey = Name string | Idx nat

text \<open>
  An own property of an object, as \<^verbatim>\<open>Object.getOwnPropertyDescriptor\<close> shows it, with its
  flags \<^verbatim>\<open>enumerable\<close> and \<^verbatim>\<open>configurable\<close>:
  \<^item> a data property: its value and its flag \<^verbatim>\<open>writable\<close>;
  \<^item> an accessor property the application has defined: its \<^verbatim>\<open>get\<close> and \<^verbatim>\<open>set\<close>, each
    present or not, over a cell that belongs to them (the getter returns a value,
    \<open>Inr\<close>, or throws, \<open>Inl\<close>; the setter stores);
  \<^item> the accessor property that \<^verbatim>\<open>defineReactive\<close> installs, that is the variables of its
    closure: \<^verbatim>\<open>dep\<close> (the id of the Dep), \<^verbatim>\<open>val\<close>, \<^verbatim>\<open>childOb\<close> (the Dep id of the
    child's Observer, which stands for the Observer), \<^verbatim>\<open>shallow\<close>, whether there is a
    \<^verbatim>\<open>customSetter\<close>, and the \<^verbatim>\<open>getter\<close> and \<^verbatim>\<open>setter\<close> taken from the accessor
    property found under the key, with their cell. It is enumerable and configurable.
\<close>

datatype descriptor =
    Data jsval bool bool bool
  | Accessor "(jsval \<Rightarrow> jsval + jsval) option" "(jsval \<Rightarrow> jsval \<Rightarrow> jsval) option" jsval bool bool
  | Reactive nat jsval "nat option" bool bool
      "(jsval \<Rightarrow> jsval + jsval) option" "(jsval \<Rightarrow> jsval \<Rightarrow> jsval) option" jsval

text \<open>The Observer attached to an object as \<^verbatim>\<open>__ob__\<close>: its Dep and \<^verbatim>\<open>vmCount\<close>.\<close>

record observer =
  obDep :: nat
  vmCount :: nat

text \<open>
  An object of the heap: its own properties in the order of \<^verbatim>\<open>Object.keys\<close>, the
  elements when it is an array, its Observer, the flags the code tests (\<^verbatim>\<open>_isVue\<close>,
  \<^verbatim>\<open>instanceof VNode\<close>, \<^verbatim>\<open>isPlainObject\<close>, \<^verbatim>\<open>Object.isExtensible\<close>), and the keys
  it has through its prototype chain only.
\<close>

record jsobj =
  props :: "(jskey \<times> descriptor) list"
  items :: "jsval list option"
  ob :: "observer option"
  isVue :: bool
  isVNode :: bool
  plain :: bool
  extensible :: bool
  inherited :: "jskey list"

text \<open>
  One Watcher (\<^verbatim>\<open>core/observer/watcher.js\<close>). Watchers and Deps are identified by
  their \<^verbatim>\<open>id\<close>, which the constructors take from a counter (\<^verbatim>\<open>++uid\<close>, \<^verbatim>\<open>uid++\<close>):
  \<open>deps\<close> and \<open>newDeps\<close> are the arrays of Deps, \<open>depIds\<close> and \<open>newDepIds\<close> the two
  sets of Dep ids.
\<close>

record watcher =
  deep :: bool
  user :: bool
  lazy :: bool
  sync :: bool
  dirty :: bool
  active :: bool
  deps :: "nat list"
  newDeps :: "nat list"
  depIds :: "nat set"
  newDepIds :: "nat set"

text \<open>
  What the modelled code does to the outside: it calls \<^verbatim>\<open>warn\<close>, it enters
  \<^verbatim>\<open>Dep.notify\<close>, it calls \<^verbatim>\<open>update()\<close> on a subscriber, it hands an error to
  \<^verbatim>\<open>handleError\<close>, it calls the \<^verbatim>\<open>customSetter\<close> of a property. The log is written
  by the modelled functions only.
\<close>

datatype event =
    Warned string
  | Notified nat
  | Updated nat
  | Handled jsval
  | CustomSetter

text \<open>
  The global state: the subscriber array \<^verbatim>\<open>subs\<close> of every Dep, the Watchers,
  \<^verbatim>\<open>Dep.target\<close> and \<^verbatim>\<open>targetStack\<close> (\<open>None\<close> stands for \<^verbatim>\<open>null\<close> and
  \<^verbatim>\<open>undefined\<close>, which the code only tests for truthiness), the build flag
  \<^verbatim>\<open>process.env.NODE_ENV === 'production'\<close>, \<^verbatim>\<open>config.async\<close>, the log, the heap
  (\<open>Ref r\<close> is the object at index \<open>r\<close>), the counter \<^verbatim>\<open>uid\<close> of the Deps,
  \<^verbatim>\<open>shouldObserve\<close>, \<^verbatim>\<open>isServerRendering()\<close> and the keys of \<^verbatim>\<open>Object.prototype\<close>.
\<close>

record world =
  subs :: "nat \<Rightarrow> nat list"
  watchers :: "nat \<Rightarrow> watcher"
  target :: "nat option"
  targetStack :: "nat option list"
  production :: bool
  configAsync :: bool
  trace :: "event list"
  heap :: "jsobj list"
  depUid :: nat
  shouldObserve :: bool
  serverRendering :: bool
  objectPrototype :: "jskey list"

definition log :: "event \<Rightarrow> world \<Rightarrow> world" where
  "log e s = s\<lparr>trace := trace s @ [e]\<rparr>"

section \<open>Dep\<close>

text \<open>\<^verbatim>\<open>addSub (sub) { this.subs.push(sub) }\<close>\<close>

definition addSub :: "nat \<Rightarrow> nat \<Rightarrow> world \<Rightarrow> world" where
  "addSub d w s = s\<lparr>subs := (subs s)(d := subs s d @ [w])\<rparr>"

text \<open>
  Modelled from the spec: \<^verbatim>\<open>remove\<close> of \<^verbatim>\<open>shared/util\<close>, which is not among the
  sources; the subscriber is dropped from the array (its first occurrence, as
  \<^verbatim>\<open>indexOf\<close> and \<^verbatim>\<open>splice\<close> do).
\<close>

definition remove :: "'a list \<Rightarrow> 'a \<Rightarrow> 'a list" where
  "remove arr item = remove1 item arr"

text \<open>\<^verbatim>\<open>removeSub (sub) { remove(this.subs, sub) }\<close>\<close>

definition removeSub :: "nat \<Rightarrow> nat \<Rightarrow> world \<Rightarrow> world" where
  "removeSub d w s = s\<lparr>subs := (subs s)(d := remove (subs s d) w)\<rparr>"

text \<open>\<^verbatim>\<open>pushTarget\<close> and \<^verbatim>\<open>popTarget\<close>; reading past the end of the empty stack
  gives \<^verbatim>\<open>undefined\<close>.\<close>

definition pushTarget :: "nat option \<Rightarrow> world \<Rightarrow> world" where
  "pushTarget t s = s\<lparr>targetStack := targetStack s @ [t], target := t\<rparr>"

definition stackTop :: "nat option list \<Rightarrow> nat option" where
  "stackTop st = (if st = [] then None else last st)"

definition popTarget :: "world \<Rightarrow> world" where
  "popTarget s =
     (let st = butlast (targetStack s) in s\<lparr>targetStack := st, target := stackTop st\<rparr>)"

text \<open>\<^verbatim>\<open>Watcher.addDep\<close>.\<close>

definition addDep :: "nat \<Rightarrow> nat \<Rightarrow> world \<Rightarrow> world" where
  "addDep w d s =
     (let W = watchers s w in
      if d \<in> newDepIds W then s
      else
        let s1 = s\<lparr>watchers := (watchers s)
                     (w := W\<lparr>newDepIds := insert d (newDepIds W), newDeps := newDeps W @ [d]\<rparr>)\<rparr>
        in if d \<in> depIds W then s1 else addSub d w s1)"

text \<open>\<^verbatim>\<open>depend () { if (Dep.target) { Dep.target.addDep(this) } }\<close>\<close>

definition depend :: "nat \<Rightarrow> world \<Rightarrow> world" where
  "depend d s = (case target s of None \<Rightarrow> s | Some w \<Rightarrow> addDep w d s)"

text \<open>
  \<^verbatim>\<open>Dep.notify\<close>. What \<^verbatim>\<open>update()\<close> does is the subscriber's business (a lazy
  Watcher marks itself dirty, a sync one runs its getter and callback, the others are
  queued): it is the parameter \<open>upd\<close>, which may change the state in any way and may
  throw (\<open>Some e\<close>); an exception leaves the loop. The loop runs over the copy made by
  \<^verbatim>\<open>this.subs.slice()\<close>.
\<close>

type_synonym updater = "nat \<Rightarrow> world \<Rightarrow> world \<times> jsval option"

fun notify_loop :: "updater \<Rightarrow> nat list \<Rightarrow> world \<Rightarrow> world \<times> jsval option" where
  "notify_loop upd [] s = (s, None)"
| "notify_loop upd (w # ws) s =
     (case upd w s of
        (s1, Some e) \<Rightarrow> (s1\<lparr>trace := trace s @ [Updated w]\<rparr>, Some e)
      | (s1, None) \<Rightarrow> notify_loop upd ws (s1\<lparr>trace := trace s @ [Updated w]\<rparr>))"

definition snapshot :: "nat \<Rightarrow> world \<Rightarrow> nat list" where
  "snapshot d s =
     (let subs0 = subs s d in
      if \<not> production s \<and> \<not> configAsync s then sort subs0 else subs0)"

definition notify :: "updater \<Rightarrow> nat \<Rightarrow> world \<Rightarrow> world \<times> jsval option" where
  "notify upd d s = notify_loop upd (snapshot d s) (log (Notified d) s)"

text \<open>The subscribers whose \<^verbatim>\<open>update()\<close> a run of the code has called, in order.\<close>

fun updated :: "event list \<Rightarrow> nat list" where
  "updated [] = []"
| "updated (Updated w # es) = w # updated es"
| "updated (_ # es) = updated es"

section \<open>Watcher\<close>

text \<open>
  \<^verbatim>\<open>Watcher.cleanupDeps\<close>: the loop \<^verbatim>\<open>while (i--)\<close> walks \<^verbatim>\<open>this.deps\<close> from its
  last element and unsubscribes from every Dep that is not in \<^verbatim>\<open>newDepIds\<close>; then the
  two sets and the two arrays are swapped and the new ones emptied.
\<close>

definition cleanupDeps :: "nat \<Rightarrow> world \<Rightarrow> world" where
  "cleanupDeps w s =
     (let s1 = fold (\<lambda>d s'. if d \<in> newDepIds (watchers s' w) then s' else removeSub d w s')
                    (rev (deps (watchers s w))) s;
          W = watchers s1 w
      in s1\<lparr>watchers := (watchers s1)
              (w := W\<lparr>depIds := newDepIds W, newDepIds := {}, deps := newDeps W, newDeps := []\<rparr>)\<rparr>)"

text \<open>
  Modelled from the spec: \<^verbatim>\<open>handleError\<close> of \<^verbatim>\<open>core/util/error.js\<close>, which is not
  among the sources; the centralized handler takes the error, here into the log.
\<close>

definition handleError :: "jsval \<Rightarrow> world \<Rightarrow> world" where
  "handleError e s = log (Handled e) s"

text \<open>
  What the user's code does during one evaluation. The getter of a Watcher is a function
  of the application: as far as the dependency state goes, running it is a sequence of
  \<^verbatim>\<open>dep.depend()\<close> calls, made by the reactive properties it reads (\<open>reads\<close>), ended
  by a value (\<open>Inr v\<close>) or by an exception (\<open>Inl e\<close>). \<^verbatim>\<open>traverse(value)\<close> reads every
  nested property of the value: more \<^verbatim>\<open>depend()\<close> calls (\<open>deepReads\<close>), and the
  exception of a property getter that throws, if one does (\<open>deepThrows\<close>).
\<close>

record evaluation =
  reads :: "nat list"
  outcome :: "jsval + jsval"
  deepReads :: "nat list"
  deepThrows :: "jsval option"

text \<open>
  \<^verbatim>\<open>Watcher.get\<close>: \<^verbatim>\<open>pushTarget(this)\<close>, the getter inside \<^verbatim>\<open>try\<close>, the \<^verbatim>\<open>catch\<close>
  block (\<^verbatim>\<open>handleError\<close> for a user Watcher, \<^verbatim>\<open>throw e\<close> otherwise), and the
  \<^verbatim>\<open>finally\<close> block: \<^verbatim>\<open>traverse(value)\<close> for a deep Watcher, \<^verbatim>\<open>popTarget()\<close>,
  \<^verbatim>\<open>cleanupDeps()\<close>. After a getter that threw, \<^verbatim>\<open>value\<close> is \<^verbatim>\<open>undefined\<close> and
  \<^verbatim>\<open>traverse\<close> returns at once. An exception inside \<^verbatim>\<open>finally\<close> leaves the block
  where it is thrown. The result is the value returned (\<open>Inr\<close>) or the exception that
  reaches the caller (\<open>Inl\<close>).
\<close>

definition get :: "evaluation \<Rightarrow> nat \<Rightarrow> world \<Rightarrow> world \<times> (jsval + jsval)" where
  "get ev w s =
     (let s1 = pushTarget (Some w) s;
          s2 = fold depend (reads ev) s1;
          (s3, r) = (case outcome ev of
                       Inr v \<Rightarrow> (s2, Inr v)
                     | Inl e \<Rightarrow> if user (watchers s2 w) then (handleError e s2, Inr Undefined)
                                else (s2, Inl e));
          traversed = (deep (watchers s3 w) \<and> isl (outcome ev) = False);
          s4 = (if traversed then fold depend (deepReads ev) s3 else s3)
      in case (if traversed then deepThrows ev else None) of
           Some e \<Rightarrow> (s4, Inl e)
         | None \<Rightarrow> (cleanupDeps w (popTarget s4), r))"

text \<open>
  The state a Watcher keeps with the Deps, between and during evaluations: the id sets
  mirror the arrays, no Dep is held twice, no Dep lists the Watcher twice, and a Dep that
  lists the Watcher is one the Watcher holds.
\<close>

definition watcher_ok :: "nat \<Rightarrow> world \<Rightarrow> bool" where
  "watcher_ok w s =
     (let W = watchers s w in
      depIds W = set (deps W) \<and> newDepIds W = set (newDeps W) \<and>
      distinct (deps W) \<and> distinct (newDeps W) \<and>
      (\<forall>d. count_list (subs s d) w \<le> 1) \<and>
      (\<forall>d. w \<in> set (subs s d) \<longrightarrow> d \<in> depIds W \<or> d \<in> newDepIds W))"

text \<open>The Watcher as its constructor leaves it, and the state before any subscription.\<close>

definition newWatcher :: "bool \<Rightarrow> bool \<Rightarrow> bool \<Rightarrow> bool \<Rightarrow> watcher" where
  "newWatcher dp us lz sy =
     \<lparr>deep = dp, user = us, lazy = lz, sync = sy, dirty = lz, active = True,
      deps = [], newDeps = [], depIds = {}, newDepIds = {}\<rparr>"

definition initial :: "world" where
  "initial =
     \<lparr>subs = (\<lambda>d. []), watchers = (\<lambda>w. newWatcher False False False False),
      target = None, targetStack = [], production = False, configAsync = True, trace = [],
      heap = [], depUid = 0, shouldObserve = True, serverRendering = False,
      objectPrototype = map Name [''constructor'', ''hasOwnProperty'', ''isPrototypeOf'',
        ''propertyIsEnumerable'', ''toLocaleString'', ''toString'', ''valueOf'', ''__proto__'']\<rparr>"

text \<open>
  The Deps on which \<^verbatim>\<open>depend()\<close> is called during one evaluation of a Watcher, and
  whether the traversal of a deep Watcher throws.
\<close>

definition allReads :: "evaluation \<Rightarrow> watcher \<Rightarrow> nat list" where
  "allReads ev W = reads ev @ (if deep W \<and> \<not> isl (outcome ev) then deepReads ev else [])"

definition traverseThrows :: "evaluation \<Rightarrow> watcher \<Rightarrow> bool" where
  "traverseThrows ev W = (deep W \<and> \<not> isl (outcome ev) \<and> deepThrows ev \<noteq> None)"

text \<open>The loop body of \<^verbatim>\<open>cleanupDeps\<close>, named for the proofs.\<close>

definition unsub :: "nat \<Rightarrow> nat \<Rightarrow> world \<Rightarrow> world" where
  "unsub w = (\<lambda>d s'. if d \<in> newDepIds (watchers s' w) then s' else removeSub d w s')"

text \<open>Two states used as concrete inputs below.\<close>

definition world2 :: world where
  "world2 = initial\<lparr>subs := (\<lambda>d. [])(5 := [1], 6 := [2, 1]),
       watchers := (watchers initial)(1 := (newWatcher False True False False)
          \<lparr>deps := [5, 6], depIds := {5, 6}\<rparr>)\<rparr>"

definition eval2 :: evaluation where
  "eval2 = \<lparr>reads = [6, 7, 6], outcome = Inr (Num 1), deepReads = [], deepThrows = None\<rparr>"

definition world7 :: world where
  "world7 = initial\<lparr>subs := (\<lambda>d. [])(4 := [3, 1, 2])\<rparr>"

definition upd7 :: updater where
  "upd7 w s = (addSub 4 (w + 10) s, None)"

section \<open>Dep.notify works on a snapshot\<close>

lemma notify_loop_called:
  "notify_loop upd ws s = (s', e) \<Longrightarrow>
     \<exists>called. trace s' = trace s @ map Updated called \<and> prefix called ws \<and> (e = None \<longrightarrow> called = ws)"
proof (induction ws arbitrary: s)
  case Nil
  then show ?case by auto
next
  case (Cons w ws)
  obtain s1 r where u: "upd w s = (s1, r)" by (cases "upd w s")
  show ?case
  proof (cases r)
    case None
    let ?s2 = "s1\<lparr>trace := trace s @ [Updated w]\<rparr>"
    from Cons.prems u None have "notify_loop upd ws ?s2 = (s', e)" by simp
    from Cons.IH[OF this] obtain called where
      c: "trace s' = trace ?s2 @ map Updated called" "prefix called ws" "e = None \<longrightarrow> called = ws"
      by blast
    then have "trace s' = trace s @ map Updated (w # called) \<and> prefix (w # called) (w # ws) \<and> (e = None \<longrightarrow> w # called = w # ws)"
      by simp
    then show ?thesis by blast
  next
    case (Some x)
    with Cons.prems u have "s' = s1\<lparr>trace := trace s @ [Updated w]\<rparr>" "e = Some x" by auto
    then have "trace s' = trace s @ map Updated [w] \<and> prefix [w] (w # ws) \<and> (e = None \<longrightarrow> [w] = w # ws)"
      by simp
    then show ?thesis by blast
  qed
qed

text \<open>
  C7. \<^verbatim>\<open>Dep.notify()\<close> calls \<^verbatim>\<open>update()\<close> on the subscribers of the list as it stood
  when \<^verbatim>\<open>notify\<close> began, in the order of that copy, whatever the updates do to the
  state (a subscription added during the round is not called in the round): the calls
  are a prefix of the copy, and the whole of it when no \<^verbatim>\<open>update()\<close> throws. The copy
  is sorted by ascending Watcher id exactly in a development build with
  \<^verbatim>\<open>config.async\<close> off, so it is sorted only in the synchronous mode.
\<close>

theorem notify_snapshot:
  assumes "notify upd d s = (s', e)"
  shows "\<exists>called. trace s' = trace s @ Notified d # map Updated called \<and>
           prefix called (snapshot d s) \<and> (e = None \<longrightarrow> called = snapshot d s) \<and>
           snapshot d s =
             (if \<not> production s \<and> \<not> configAsync s then sort (subs s d) else subs s d)"
proof -
  from assms have "notify_loop upd (snapshot d s) (log (Notified d) s) = (s', e)"
    by (simp add: notify_def)
  from notify_loop_called[OF this] obtain called where
    "trace s' = trace (log (Notified d) s) @ map Updated called"
    "prefix called (snapshot d s)" "e = None \<longrightarrow> called = snapshot d s"
    by blast
  then have "trace s' = trace s @ Notified d # map Updated called \<and>
           prefix called (snapshot d s) \<and> (e = None \<longrightarrow> called = snapshot d s) \<and>
           snapshot d s =
             (if \<not> production s \<and> \<not> configAsync s then sort (subs s d) else subs s d)"
    by (simp add: log_def snapshot_def)
  then show ?thesis by blast
qed

text \<open>
  Every update of the round subscribes a new Watcher to the notified Dep: the three
  subscribers of the copy are called, the three new ones are not. With
  \<^verbatim>\<open>config.async\<close> off the same three are called in the order of their ids.
\<close>

theorem notify_snapshot_witness:
  "snd (notify upd7 4 world7) = None \<and>
   subs (fst (notify upd7 4 world7)) 4 = [3, 1, 2, 13, 11, 12] \<and>
   updated (trace (fst (notify upd7 4 world7))) = [3, 1, 2] \<and>
   snd (notify upd7 4 (world7\<lparr>configAsync := False\<rparr>)) = None \<and>
   updated (trace (fst (notify upd7 4 (world7\<lparr>configAsync := False\<rparr>)))) = [1, 2, 3]"
proof -
  let ?r = "notify upd7 4 world7"
  let ?q = "notify upd7 4 (world7\<lparr>configAsync := False\<rparr>)"
  have e: "snd ?r = None" and sb: "subs (fst ?r) 4 = [3, 1, 2, 13, 11, 12]"
    by (simp_all add: notify_def snapshot_def world7_def initial_def upd7_def addSub_def log_def)
  have e2: "snd ?q = None"
    by (simp add: notify_def snapshot_def world7_def initial_def upd7_def addSub_def log_def)
  have sn: "snapshot 4 world7 = [3, 1, 2]"
           "snapshot 4 (world7\<lparr>configAsync := False\<rparr>) = [1, 2, 3]"
    by (simp_all add: snapshot_def world7_def initial_def)
  have t: "trace world7 = []" by (simp add: world7_def initial_def)
  have g: "notify upd7 4 world7 = (fst ?r, snd ?r)"
    and g2: "notify upd7 4 (world7\<lparr>configAsync := False\<rparr>) = (fst ?q, snd ?q)"
    by simp_all
  from notify_snapshot[OF g] obtain c where
    "trace (fst ?r) = trace world7 @ Notified 4 # map Updated c"
    "snd ?r = None \<longrightarrow> c = snapshot 4 world7"
    by (elim exE conjE)
  with e sn t have u: "updated (trace (fst ?r)) = [3, 1, 2]" by simp
  from notify_snapshot[OF g2] obtain c2 where
    "trace (fst ?q) = trace (world7\<lparr>configAsync := False\<rparr>) @ Notified 4 # map Updated c2"
    "snd ?q = None \<longrightarrow> c2 = snapshot 4 (world7\<lparr>configAsync := False\<rparr>)"
    by (elim exE conjE)
  with e2 sn t have u2: "updated (trace (fst ?q)) = [1, 2, 3]" by simp
  from e sb u e2 u2 show ?thesis by simp
qed

section \<open>The subscription invariant\<close>

lemma count_list_remove1_le: "count_list (remove1 x xs) y \<le> count_list xs y"
  by (induction xs) auto

lemma count_list_remove1_self:
  "count_list xs x \<le> 1 \<Longrightarrow> x \<notin> set (remove1 x xs)"
  by (induction xs) (auto simp: count_list_0_iff)

lemma watcher_ok_initial: "watcher_ok w initial"
  by (simp add: watcher_ok_def initial_def newWatcher_def)

lemma watcher_ok_addDep: "watcher_ok w s \<Longrightarrow> watcher_ok w (addDep w' d s)"
proof (cases "w' = w")
  case True
  assume ok: "watcher_ok w s"
  show ?thesis
  proof (cases "d \<in> newDepIds (watchers s w)")
    case True
    with ok \<open>w' = w\<close> show ?thesis by (simp add: addDep_def)
  next
    case False
    note notnew = this
    show ?thesis
    proof (cases "d \<in> depIds (watchers s w)")
      case True
      with ok notnew \<open>w' = w\<close> show ?thesis
        by (auto simp: addDep_def watcher_ok_def Let_def)
    next
      case False
      with ok notnew have "w \<notin> set (subs s d)"
        by (auto simp: watcher_ok_def Let_def)
      then have "count_list (subs s d) w = 0" by (simp add: count_list_0_iff)
      with ok notnew False \<open>w' = w\<close> show ?thesis
        by (auto simp: addDep_def watcher_ok_def Let_def addSub_def)
    qed
  qed
next
  case False
  assume ok: "watcher_ok w s"
  with False show ?thesis
    by (auto simp: addDep_def watcher_ok_def Let_def addSub_def)
qed

lemma watcher_ok_depend: "watcher_ok w s \<Longrightarrow> watcher_ok w (depend d s)"
  by (simp add: depend_def watcher_ok_addDep split: option.splits)

lemma watcher_ok_reads: "watcher_ok w s \<Longrightarrow> watcher_ok w (fold depend ds s)"
  by (induction ds arbitrary: s) (simp_all add: watcher_ok_depend)

lemma watcher_ok_cong:
  "subs s' = subs s \<Longrightarrow> watchers s' = watchers s \<Longrightarrow> watcher_ok w s' = watcher_ok w s"
  by (simp add: watcher_ok_def)

lemma unsub_frame:
  "watchers (fold (unsub w) ds s) = watchers s"
  "target (fold (unsub w) ds s) = target s"
  "targetStack (fold (unsub w) ds s) = targetStack s"
  "trace (fold (unsub w) ds s) = trace s"
  by (induction ds arbitrary: s; simp add: unsub_def removeSub_def)+

lemma unsub_count:
  "count_list (subs (fold (unsub w) ds s) d) x \<le> count_list (subs s d) x"
proof (induction ds arbitrary: s)
  case Nil
  show ?case by simp
next
  case (Cons a ds)
  have "count_list (subs (unsub w a s) d) x \<le> count_list (subs s d) x"
    by (simp add: unsub_def removeSub_def remove_def count_list_remove1_le)
  with Cons[of "unsub w a s"] show ?case by simp
qed

lemma unsub_gone:
  "d \<in> set ds \<Longrightarrow> d \<notin> newDepIds (watchers s w) \<Longrightarrow> count_list (subs s d) w \<le> 1 \<Longrightarrow>
     w \<notin> set (subs (fold (unsub w) ds s) d)"
proof (induction ds arbitrary: s)
  case Nil
  then show ?case by simp
next
  case (Cons a ds)
  show ?case
  proof (cases "a = d")
    case True
    with Cons.prems have "w \<notin> set (subs (unsub w a s) d)"
      by (simp add: unsub_def removeSub_def remove_def count_list_remove1_self)
    then have "count_list (subs (unsub w a s) d) w = 0" by (simp add: count_list_0_iff)
    with unsub_count[of w ds "unsub w a s" d w]
    have "count_list (subs (fold (unsub w) ds (unsub w a s)) d) w = 0" by simp
    then show ?thesis by (simp add: count_list_0_iff)
  next
    case False
    with Cons.prems have 1: "d \<in> set ds" by simp
    have 2: "d \<notin> newDepIds (watchers (unsub w a s) w)"
      using Cons.prems by (simp add: unsub_def removeSub_def)
    have "count_list (subs (unsub w a s) d) w \<le> count_list (subs s d) w"
      by (simp add: unsub_def removeSub_def remove_def count_list_remove1_le)
    with Cons.prems have 3: "count_list (subs (unsub w a s) d) w \<le> 1" by simp
    from Cons.IH[OF 1 2 3] show ?thesis by simp
  qed
qed

lemma unsub_kept:
  "d \<notin> set ds \<or> d \<in> newDepIds (watchers s w) \<Longrightarrow> subs (fold (unsub w) ds s) d = subs s d"
proof (induction ds arbitrary: s)
  case Nil
  show ?case by simp
next
  case (Cons a ds)
  have w: "watchers (unsub w a s) = watchers s" by (simp add: unsub_def removeSub_def)
  have "subs (unsub w a s) d = subs s d"
    using Cons.prems by (auto simp: unsub_def removeSub_def)
  moreover have "subs (fold (unsub w) ds (unsub w a s)) d = subs (unsub w a s) d"
    using Cons.prems by (intro Cons.IH) (auto simp: w)
  ultimately show ?case by simp
qed

lemma unsub_others:
  "filter (\<lambda>x. x \<noteq> w) (subs (fold (unsub w) ds s) d) = filter (\<lambda>x. x \<noteq> w) (subs s d)"
proof (induction ds arbitrary: s)
  case Nil
  show ?case by simp
next
  case (Cons a ds)
  have r: "\<And>xs. filter (\<lambda>x. x \<noteq> w) (remove1 w xs) = filter (\<lambda>x. x \<noteq> w) xs"
    subgoal for xs by (induction xs) auto
    done
  have "filter (\<lambda>x. x \<noteq> w) (subs (unsub w a s) d) = filter (\<lambda>x. x \<noteq> w) (subs s d)"
    by (simp add: unsub_def removeSub_def remove_def r)
  with Cons[of "unsub w a s"] show ?case by simp
qed

lemma count_list_remove1_other: "x \<noteq> y \<Longrightarrow> count_list (remove1 x xs) y = count_list xs y"
  by (induction xs) auto

lemma unsub_count_other:
  "x \<noteq> w \<Longrightarrow> count_list (subs (fold (unsub w) ds s) d) x = count_list (subs s d) x"
proof (induction ds arbitrary: s)
  case Nil
  show ?case by simp
next
  case (Cons a ds)
  have "count_list (subs (unsub w a s) d) x = count_list (subs s d) x"
    using Cons.prems by (simp add: unsub_def removeSub_def remove_def count_list_remove1_other)
  with Cons.IH[OF Cons.prems, of "unsub w a s"] show ?case by simp
qed

lemma cleanupDeps_unsub:
  "cleanupDeps w s =
     (let s1 = fold (unsub w) (rev (deps (watchers s w))) s; W = watchers s w
      in s1\<lparr>watchers := (watchers s)
              (w := W\<lparr>depIds := newDepIds W, newDepIds := {}, deps := newDeps W, newDeps := []\<rparr>)\<rparr>)"
  by (simp add: cleanupDeps_def unsub_def[symmetric] Let_def unsub_frame)

lemma cleanupDeps_frame:
  "target (cleanupDeps w s) = target s"
  "targetStack (cleanupDeps w s) = targetStack s"
  "trace (cleanupDeps w s) = trace s"
  by (simp_all add: cleanupDeps_unsub Let_def unsub_frame)

lemma cleanupDeps_watcher:
  "watchers (cleanupDeps w s) w =
     (watchers s w)\<lparr>depIds := newDepIds (watchers s w), newDepIds := {},
                    deps := newDeps (watchers s w), newDeps := []\<rparr>"
  "w' \<noteq> w \<Longrightarrow> watchers (cleanupDeps w s) w' = watchers s w'"
  by (simp_all add: cleanupDeps_unsub Let_def)

lemma cleanupDeps_subs:
  "subs (cleanupDeps w s) d = subs (fold (unsub w) (rev (deps (watchers s w))) s) d"
  by (simp add: cleanupDeps_unsub Let_def)

lemma watcher_ok_cleanupDeps:
  assumes ok: "watcher_ok w s"
  shows "watcher_ok w (cleanupDeps w' s)"
proof (cases "w' = w")
  case True
  let ?W = "watchers s w"
  have cnt: "\<And>d. count_list (subs (cleanupDeps w s) d) w \<le> 1"
  proof -
    fix d
    have "count_list (subs (cleanupDeps w s) d) w \<le> count_list (subs s d) w"
      by (simp add: cleanupDeps_subs unsub_count)
    with ok show "count_list (subs (cleanupDeps w s) d) w \<le> 1"
      by (simp add: watcher_ok_def Let_def) (meson le_trans)
  qed
  have held: "\<And>d. w \<in> set (subs (cleanupDeps w s) d) \<Longrightarrow> d \<in> newDepIds ?W"
  proof (rule ccontr)
    fix d assume in': "w \<in> set (subs (cleanupDeps w s) d)" and notnew: "d \<notin> newDepIds ?W"
    have "count_list (subs (cleanupDeps w s) d) w \<le> count_list (subs s d) w"
      by (simp add: cleanupDeps_subs unsub_count)
    with in' have "w \<in> set (subs s d)"
      by (metis count_list_0_iff le_zero_eq)
    with ok notnew have "d \<in> set (deps ?W)" by (auto simp: watcher_ok_def Let_def)
    moreover from ok have "count_list (subs s d) w \<le> 1" by (simp add: watcher_ok_def Let_def)
    ultimately have "w \<notin> set (subs (cleanupDeps w s) d)"
      using notnew by (simp add: cleanupDeps_subs unsub_gone)
    with in' show False by simp
  qed
  from ok cnt held True show ?thesis
    by (auto simp: watcher_ok_def Let_def cleanupDeps_watcher)
next
  case False
  have eq: "\<And>d. count_list (subs (cleanupDeps w' s) d) w = count_list (subs s d) w"
    using False by (simp add: cleanupDeps_subs unsub_count_other)
  then have mem: "\<And>d. w \<in> set (subs (cleanupDeps w' s) d) \<longleftrightarrow> w \<in> set (subs s d)"
    by (metis count_list_0_iff)
  from ok False eq mem show ?thesis
    by (auto simp: watcher_ok_def Let_def cleanupDeps_watcher)
qed

lemma addDep_frame:
  "target (addDep w d s) = target s"
  "targetStack (addDep w d s) = targetStack s"
  "trace (addDep w d s) = trace s"
  "production (addDep w d s) = production s"
  "configAsync (addDep w d s) = configAsync s"
  by (simp_all add: addDep_def Let_def addSub_def)

lemma addDep_flags:
  "deep (watchers (addDep w d s) w') = deep (watchers s w')"
  "user (watchers (addDep w d s) w') = user (watchers s w')"
  "deps (watchers (addDep w d s) w') = deps (watchers s w')"
  "depIds (watchers (addDep w d s) w') = depIds (watchers s w')"
  by (simp_all add: addDep_def Let_def addSub_def)

lemma depend_frame:
  "target (depend d s) = target s"
  "targetStack (depend d s) = targetStack s"
  "trace (depend d s) = trace s"
  "deep (watchers (depend d s) w') = deep (watchers s w')"
  "user (watchers (depend d s) w') = user (watchers s w')"
  "deps (watchers (depend d s) w') = deps (watchers s w')"
  "depIds (watchers (depend d s) w') = depIds (watchers s w')"
  by (simp_all add: depend_def addDep_frame addDep_flags split: option.splits)

lemma reads_frame:
  "target (fold depend ds s) = target s"
  "targetStack (fold depend ds s) = targetStack s"
  "trace (fold depend ds s) = trace s"
  "deep (watchers (fold depend ds s) w') = deep (watchers s w')"
  "user (watchers (fold depend ds s) w') = user (watchers s w')"
  "deps (watchers (fold depend ds s) w') = deps (watchers s w')"
  "depIds (watchers (fold depend ds s) w') = depIds (watchers s w')"
  by (induction ds arbitrary: s; simp add: depend_frame)+

lemma addDep_newDepIds:
  "newDepIds (watchers (addDep w d s) w) = insert d (newDepIds (watchers s w))"
  by (auto simp: addDep_def Let_def addSub_def)

lemma reads_newDepIds:
  "target s = Some w \<Longrightarrow>
     newDepIds (watchers (fold depend ds s) w) = newDepIds (watchers s w) \<union> set ds"
proof (induction ds arbitrary: s)
  case Nil
  show ?case by simp
next
  case (Cons d ds)
  have t: "target (depend d s) = Some w" using Cons.prems by (simp add: depend_frame)
  have "newDepIds (watchers (depend d s) w) = insert d (newDepIds (watchers s w))"
    using Cons.prems by (simp add: depend_def addDep_newDepIds)
  with Cons.IH[OF t] show ?case by simp
qed

lemma handleError_frame:
  "subs (handleError e s) = subs s"
  "watchers (handleError e s) = watchers s"
  "target (handleError e s) = target s"
  "targetStack (handleError e s) = targetStack s"
  "trace (handleError e s) = trace s @ [Handled e]"
  by (simp_all add: handleError_def log_def)

lemma reads_handleError:
  "fold depend ds (handleError e s) = handleError e (fold depend ds s)"
proof (induction ds arbitrary: s)
  case Nil
  show ?case by simp
next
  case (Cons d ds)
  have "depend d (handleError e s) = handleError e (depend d s)"
    by (simp add: depend_def handleError_def log_def addDep_def Let_def addSub_def split: option.splits)
  with Cons show ?case by simp
qed

lemma get_normal:
  assumes "\<not> traverseThrows ev (watchers s w)"
  shows "get ev w s =
     (cleanupDeps w (popTarget
        ((case outcome ev of Inl e \<Rightarrow> if user (watchers s w) then handleError e else id | Inr v \<Rightarrow> id)
           (fold depend (allReads ev (watchers s w)) (pushTarget (Some w) s)))),
      case outcome ev of Inr v \<Rightarrow> Inr v
      | Inl e \<Rightarrow> if user (watchers s w) then Inr Undefined else Inl e)"
proof -
  have f: "deep (watchers (pushTarget (Some w) s) w) = deep (watchers s w)"
          "user (watchers (pushTarget (Some w) s) w) = user (watchers s w)"
    by (simp_all add: pushTarget_def)
  show ?thesis
  proof (cases "outcome ev")
    case (Inl e)
    then show ?thesis
      by (simp add: get_def Let_def allReads_def reads_frame f handleError_frame)
  next
    case (Inr v)
    with assms have "deep (watchers s w) \<longrightarrow> deepThrows ev = None"
      by (simp add: traverseThrows_def)
    with Inr show ?thesis
      by (auto simp: get_def Let_def allReads_def reads_frame f)
  qed
qed

lemma get_restores:
  assumes "\<not> traverseThrows ev (watchers s w)" and "get ev w s = (s', r)"
  shows "targetStack s' = targetStack s \<and> target s' = stackTop (targetStack s) \<and>
         newDeps (watchers s' w) = [] \<and> newDepIds (watchers s' w) = {} \<and>
         r = (case outcome ev of Inr v \<Rightarrow> Inr v
              | Inl e \<Rightarrow> if user (watchers s w) then Inr Undefined else Inl e) \<and>
         trace s' = trace s @ (case outcome ev of Inr v \<Rightarrow> []
              | Inl e \<Rightarrow> if user (watchers s w) then [Handled e] else [])"
proof -
  from assms(2) have s': "s' = fst (get ev w s)" and r: "r = snd (get ev w s)" by simp_all
  show ?thesis unfolding s' r get_normal[OF assms(1)]
    by (simp add: cleanupDeps_frame cleanupDeps_watcher popTarget_def Let_def reads_frame
        handleError_frame pushTarget_def split: sum.splits)
qed

lemma get_traverse_throws:
  assumes "deep (watchers s w)" and "outcome ev = Inr v" and "deepThrows ev = Some e"
  shows "get ev w s = (fold depend (reads ev @ deepReads ev) (pushTarget (Some w) s), Inl e)"
  using assms by (simp add: get_def Let_def reads_frame pushTarget_def)

lemma watcher_ok_before_cleanup:
  assumes "watcher_ok w s"
  shows "watcher_ok w (popTarget
        ((case outcome ev of Inl e \<Rightarrow> if user (watchers s w) then handleError e else id | Inr v \<Rightarrow> id)
           (fold depend ds (pushTarget (Some w') s))))"
proof -
  have 1: "watcher_ok w (pushTarget (Some w') s)"
    using assms by (auto simp: watcher_ok_def pushTarget_def)
  have 2: "watcher_ok w (fold depend ds (pushTarget (Some w') s))"
    using 1 by (rule watcher_ok_reads)
  have 3: "\<And>t e. watcher_ok w t \<Longrightarrow> watcher_ok w (handleError e t)"
    by (auto simp: watcher_ok_def handleError_def log_def)
  have 4: "\<And>t. watcher_ok w t \<Longrightarrow> watcher_ok w (popTarget t)"
    by (auto simp: watcher_ok_def popTarget_def Let_def)
  show ?thesis
    by (rule 4) (simp add: 2 3 split: sum.splits)
qed

text \<open>
  C2. When an evaluation of a Watcher reaches its reconciliation (\<^verbatim>\<open>cleanupDeps\<close>), from
  a state in which the Watcher's bookkeeping is sound: every Dep lists the Watcher at most
  once, the Watcher's new \<^verbatim>\<open>deps\<close> hold every Dep at most once (they are the Deps read in
  this evaluation), every Dep known before and not read now no longer lists the Watcher,
  and the bookkeeping is sound again.
\<close>

theorem get_reconciles:
  assumes ok: "watcher_ok w s"
    and nt: "\<not> traverseThrows ev (watchers s w)"
    and g: "get ev w s = (s', r)"
  shows "(\<forall>d. count_list (subs s' d) w \<le> 1) \<and>
         distinct (deps (watchers s' w)) \<and>
         set (deps (watchers s' w)) =
           set (newDeps (watchers s w)) \<union> set (allReads ev (watchers s w)) \<and>
         (\<forall>d \<in> set (deps (watchers s w)).
            d \<notin> set (allReads ev (watchers s w)) \<and> d \<notin> set (newDeps (watchers s w))
              \<longrightarrow> w \<notin> set (subs s' d)) \<and>
         watcher_ok w s'"
proof -
  let ?h = "case outcome ev of Inl e \<Rightarrow> if user (watchers s w) then handleError e else id | Inr v \<Rightarrow> id"
  let ?s2 = "fold depend (allReads ev (watchers s w)) (pushTarget (Some w) s)"
  let ?sm = "popTarget (?h ?s2)"
  from g have s': "s' = cleanupDeps w ?sm"
    unfolding get_normal[OF nt] by simp
  have okm: "watcher_ok w ?sm" using ok by (rule watcher_ok_before_cleanup)
  have ok': "watcher_ok w s'" unfolding s' using okm by (rule watcher_ok_cleanupDeps)
  have hw: "watchers (?h ?s2) = watchers ?s2" "subs (?h ?s2) = subs ?s2"
    by (simp_all add: handleError_frame split: sum.splits)
  have wm: "watchers ?sm = watchers ?s2" "subs ?sm = subs ?s2"
    by (simp_all add: popTarget_def Let_def hw)
  have nd: "newDepIds (watchers ?sm w) = newDepIds (watchers s w) \<union> set (allReads ev (watchers s w))"
    unfolding wm by (subst reads_newDepIds) (simp_all add: pushTarget_def)
  have dm: "deps (watchers ?sm w) = deps (watchers s w)"
    unfolding wm by (simp add: reads_frame pushTarget_def)
  from ok have ni: "newDepIds (watchers s w) = set (newDeps (watchers s w))"
    by (simp add: watcher_ok_def Let_def)
  from okm have nim: "newDepIds (watchers ?sm w) = set (newDeps (watchers ?sm w))"
    and cm: "\<And>d. count_list (subs ?sm d) w \<le> 1"
    by (simp_all add: watcher_ok_def Let_def)
  have deps': "deps (watchers s' w) = newDeps (watchers ?sm w)"
    unfolding s' by (simp add: cleanupDeps_watcher)
  have a: "\<forall>d. count_list (subs s' d) w \<le> 1"
    using ok' by (simp add: watcher_ok_def Let_def)
  have b: "distinct (deps (watchers s' w))"
    using ok' by (simp add: watcher_ok_def Let_def)
  have c: "set (deps (watchers s' w)) =
           set (newDeps (watchers s w)) \<union> set (allReads ev (watchers s w))"
    unfolding deps' nim[symmetric] nd ni ..
  have d: "\<forall>d \<in> set (deps (watchers s w)).
            d \<notin> set (allReads ev (watchers s w)) \<and> d \<notin> set (newDeps (watchers s w))
              \<longrightarrow> w \<notin> set (subs s' d)"
  proof (intro ballI impI)
    fix d assume din: "d \<in> set (deps (watchers s w))"
      and dn: "d \<notin> set (allReads ev (watchers s w)) \<and> d \<notin> set (newDeps (watchers s w))"
    have 1: "d \<in> set (rev (deps (watchers ?sm w)))" using din by (simp only: dm set_rev)
    have 2: "d \<notin> newDepIds (watchers ?sm w)" using dn by (simp only: nd ni) simp
    have "w \<notin> set (subs (fold (unsub w) (rev (deps (watchers ?sm w))) ?sm) d)"
      by (rule unsub_gone[OF 1 2 cm])
    then show "w \<notin> set (subs s' d)" by (simp only: s' cleanupDeps_subs simp_thms)
  qed
  from a b c d ok' show ?thesis by blast
qed

theorem get_reconciles_witness:
  "watcher_ok 1 world2 \<and> \<not> traverseThrows eval2 (watchers world2 1) \<and>
   5 \<in> set (deps (watchers world2 1)) \<and> 5 \<notin> set (allReads eval2 (watchers world2 1)) \<and>
   1 \<notin> set (subs (fst (get eval2 1 world2)) 5) \<and>
   distinct (deps (watchers (fst (get eval2 1 world2)) 1)) \<and>
   count_list (subs (fst (get eval2 1 world2)) 6) 1 \<le> 1"
proof -
  have ok: "watcher_ok 1 world2"
    by (simp add: watcher_ok_def world2_def initial_def newWatcher_def)
  have nt: "\<not> traverseThrows eval2 (watchers world2 1)"
    by (simp add: traverseThrows_def eval2_def)
  have g: "get eval2 1 world2 = (fst (get eval2 1 world2), snd (get eval2 1 world2))" by simp
  have m: "5 \<in> set (deps (watchers world2 1))" "5 \<notin> set (allReads eval2 (watchers world2 1))"
    "5 \<notin> set (newDeps (watchers world2 1))"
    by (simp_all add: world2_def eval2_def allReads_def initial_def newWatcher_def)
  from get_reconciles[OF ok nt g] m ok nt show ?thesis by blast
qed

section \<open>Watcher.get and an exception of the traversal\<close>

text \<open>A deep user Watcher, and an evaluation in which the getter returns an object and
  \<^verbatim>\<open>traverse\<close> meets a property getter that throws.\<close>

definition world3 :: world where
  "world3 = initial\<lparr>watchers := (watchers initial)(1 := newWatcher True True False False)\<rparr>"

definition eval3 :: evaluation where
  "eval3 = \<lparr>reads = [5], outcome = Inr (Ref 0), deepReads = [6], deepThrows = Some (Str ''boom'')\<rparr>"

text \<open>
  C3. \<^verbatim>\<open>Watcher.get\<close> pushes the Watcher before the getter runs, and pops the stack and
  reconciles the dependencies in its \<^verbatim>\<open>finally\<close> block; a getter that throws goes to
  \<^verbatim>\<open>handleError\<close> for a user Watcher and to the caller otherwise (\<open>get_restores\<close>,
  for every evaluation in which the traversal does not throw). The \<^verbatim>\<open>finally\<close> block
  calls \<^verbatim>\<open>traverse(value)\<close> before \<^verbatim>\<open>popTarget()\<close>: a deep Watcher whose getter
  returns an object with a property getter that throws leaves \<^verbatim>\<open>get\<close> by that
  exception, also when it is a user Watcher, with the Watcher still the active target and
  still on the stack, and with the dependencies of the round not reconciled.
\<close>

theorem get_deep_traverse_throws:
  "target world3 = None \<and> targetStack world3 = [] \<and>
   snd (get eval3 1 world3) = Inl (Str ''boom'') \<and>
   target (fst (get eval3 1 world3)) = Some 1 \<and>
   targetStack (fst (get eval3 1 world3)) = [Some 1] \<and>
   newDeps (watchers (fst (get eval3 1 world3)) 1) = [5, 6] \<and>
   deps (watchers (fst (get eval3 1 world3)) 1) = []"
  by (simp add: get_def world3_def eval3_def initial_def newWatcher_def pushTarget_def
      depend_def addDep_def addSub_def Let_def)

section \<open>The HTML tokenizer\<close>

text \<open>
  \<^verbatim>\<open>compiler/parser/html-parser.js\<close>. The markup is a list of characters. The character
  classes of the regular expressions are taken on ASCII (\<^verbatim>\<open>\s\<close>, \<^verbatim>\<open>\w\<close>), and
  \<^verbatim>\<open>toLowerCase\<close> changes the letters \<^verbatim>\<open>A-Z\<close> only.
\<close>

definition is_space :: "char \<Rightarrow> bool" where
  "is_space c = (c \<in> set [CHR 0x20, CHR 0x09, CHR 0x0A, CHR 0x0B, CHR 0x0C, CHR 0x0D])"

definition is_upper :: "char \<Rightarrow> bool" where
  "is_upper c = (c \<in> set ''ABCDEFGHIJKLMNOPQRSTUVWXYZ'')"

definition is_alpha :: "char \<Rightarrow> bool" where
  "is_alpha c = (is_upper c \<or> c \<in> set ''abcdefghijklmnopqrstuvwxyz'')"

definition is_digit :: "char \<Rightarrow> bool" where
  "is_digit c = (c \<in> set ''0123456789'')"

definition is_word :: "char \<Rightarrow> bool" where
  "is_word c = (is_alpha c \<or> is_digit c \<or> c = CHR ''_'')"

definition lower_char :: "char \<Rightarrow> char" where
  "lower_char c =
     (case map_of (zip ''ABCDEFGHIJKLMNOPQRSTUVWXYZ'' ''abcdefghijklmnopqrstuvwxyz'') c of
        Some l \<Rightarrow> l | None \<Rightarrow> c)"

definition toLowerCase :: "string \<Rightarrow> string" where
  "toLowerCase s = map lower_char s"

text \<open>\<^verbatim>\<open>s.indexOf(c)\<close> for a character, and \<^verbatim>\<open>s.indexOf(pat)\<close> for a string;
  \<open>None\<close> is \<^verbatim>\<open>-1\<close>.\<close>

fun indexOf :: "char \<Rightarrow> string \<Rightarrow> nat option" where
  "indexOf c [] = None"
| "indexOf c (x # xs) = (if x = c then Some 0 else map_option Suc (indexOf c xs))"

fun indexOfStr :: "string \<Rightarrow> string \<Rightarrow> nat option" where
  "indexOfStr pat [] = (if pat = [] then Some 0 else None)"
| "indexOfStr pat (x # xs) =
     (if prefix pat (x # xs) then Some 0 else map_option Suc (indexOfStr pat xs))"

subsection \<open>The regular expressions\<close>

text \<open>
  Each matcher is anchored at the head of the string, as the expressions are (\<^verbatim>\<open>^\<close>),
  and gives what the code uses of the match: its length and its groups.
  \<^verbatim>\<open>unicodeRegExp\<close> comes from \<^verbatim>\<open>core/util/lang\<close>, which is not among the sources: the
  characters it adds to a name are the parameter \<open>U\<close>.
\<close>

definition name_char :: "(char \<Rightarrow> bool) \<Rightarrow> char \<Rightarrow> bool" where
  "name_char U c = (c = CHR ''-'' \<or> c = CHR ''.'' \<or> is_digit c \<or> c = CHR ''_'' \<or> is_alpha c \<or> U c)"

text \<open>\<^verbatim>\<open>ncname = [a-zA-Z_][\-\.0-9_a-zA-Z<unicode>]*\<close>: the length of the name.\<close>

definition ncname :: "(char \<Rightarrow> bool) \<Rightarrow> string \<Rightarrow> nat option" where
  "ncname U s =
     (case s of
        [] \<Rightarrow> None
      | c # cs \<Rightarrow> if is_alpha c \<or> c = CHR ''_''
                  then Some (Suc (length (takeWhile (name_char U) cs))) else None)"

text \<open>\<^verbatim>\<open>qnameCapture = ((?:ncname\:)?ncname)\<close>.\<close>

definition qname :: "(char \<Rightarrow> bool) \<Rightarrow> string \<Rightarrow> nat option" where
  "qname U s =
     (case ncname U s of
        None \<Rightarrow> None
      | Some n \<Rightarrow>
          (case drop n s of
             [] \<Rightarrow> Some n
           | c # cs \<Rightarrow>
               if c = CHR '':'' then
                 (case ncname U cs of Some m \<Rightarrow> Some (n + 1 + m) | None \<Rightarrow> Some n)
               else Some n))"

text \<open>\<^verbatim>\<open>startTagOpen = ^<qnameCapture\<close>: the tag name and the length of the match.\<close>

definition startTagOpen :: "(char \<Rightarrow> bool) \<Rightarrow> string \<Rightarrow> (string \<times> nat) option" where
  "startTagOpen U s =
     (case s of
        [] \<Rightarrow> None
      | c # cs \<Rightarrow>
          if c = CHR ''<'' then map_option (\<lambda>n. (take n cs, Suc n)) (qname U cs) else None)"

text \<open>\<^verbatim>\<open>startTagClose = /^\s*(\/?)>/\<close>: the slash group and the length.\<close>

definition startTagClose :: "string \<Rightarrow> (string \<times> nat) option" where
  "startTagClose s =
     (let r = dropWhile is_space s; k = length (takeWhile is_space s) in
      if prefix ''/>'' r then Some (''/'', k + 2)
      else if prefix ''>'' r then Some ('''', k + 1)
      else None)"

text \<open>\<^verbatim>\<open>endTag = ^<\/qnameCapture[^>]*>\<close>: the tag name and the length.\<close>

definition endTag :: "(char \<Rightarrow> bool) \<Rightarrow> string \<Rightarrow> (string \<times> nat) option" where
  "endTag U s =
     (if prefix ''</'' s then
        (case qname U (drop 2 s) of
           None \<Rightarrow> None
         | Some n \<Rightarrow>
             let r = drop (2 + n) s in
             if CHR ''>'' \<in> set r
             then Some (take n (drop 2 s), 2 + n + length (takeWhile (\<lambda>c. c \<noteq> CHR ''>'') r) + 1)
             else None)
      else None)"

text \<open>\<^verbatim>\<open>doctype = /^<!DOCTYPE [^>]+>/i\<close>: the length.\<close>

definition doctype :: "string \<Rightarrow> nat option" where
  "doctype s =
     (let r = drop 10 s; n = length (takeWhile (\<lambda>c. c \<noteq> CHR ''>'') r) in
      if toLowerCase (take 10 s) = ''<!doctype '' \<and> 0 < n \<and> n < length r
      then Some (10 + n + 1) else None)"

text \<open>\<^verbatim>\<open>comment = /^<!\--/\<close> and \<^verbatim>\<open>conditionalComment = /^<!\[/\<close>.\<close>

definition comment :: "string \<Rightarrow> bool" where
  "comment s = prefix ''<!--'' s"

definition conditionalComment :: "string \<Rightarrow> bool" where
  "conditionalComment s = prefix ''<!['' s"

text \<open>
  The value part of an attribute,
  \<^verbatim>\<open>\s*(=)\s*(?:"([^"]*)"+|'([^']*)'+|([^\s"'=<>`]+))\<close>: the groups 3, 4 and 5
  (\<open>None\<close> for a group that took no part) and the length. A quoted value needs its
  closing quote, after which \<^verbatim>\<open>"+\<close> takes every quote that follows.
\<close>

definition quoted :: "char \<Rightarrow> string \<Rightarrow> (string \<times> nat) option" where
  "quoted q s =
     (case s of
        [] \<Rightarrow> None
      | c # cs \<Rightarrow>
          if c = q \<and> q \<in> set cs then
            let v = takeWhile (\<lambda>x. x \<noteq> q) cs in
            Some (v, 1 + length v + length (takeWhile (\<lambda>x. x = q) (drop (length v) cs)))
          else None)"

definition unquoted_char :: "char \<Rightarrow> bool" where
  "unquoted_char c = (\<not> is_space c \<and> c \<notin> set [CHR 0x22, CHR 0x27, CHR ''='', CHR ''<'', CHR ''>'', CHR 0x60])"

definition attrValue ::
  "string \<Rightarrow> (string option \<times> string option \<times> string option \<times> nat) option" where
  "attrValue s =
     (let r1 = dropWhile is_space s; k1 = length (takeWhile is_space s) in
      if prefix ''='' r1 then
        let r2 = dropWhile is_space (drop 1 r1); k2 = length (takeWhile is_space (drop 1 r1)) in
        (case quoted (CHR 0x22) r2 of
           Some (v, n) \<Rightarrow> Some (Some v, None, None, k1 + 1 + k2 + n)
         | None \<Rightarrow>
             (case quoted (CHR 0x27) r2 of
                Some (v, n) \<Rightarrow> Some (None, Some v, None, k1 + 1 + k2 + n)
              | None \<Rightarrow>
                  let v = takeWhile unquoted_char r2 in
                  if v \<noteq> [] then Some (None, None, Some v, k1 + 1 + k2 + length v) else None))
      else None)"

text \<open>
  A match of \<^verbatim>\<open>attribute\<close> or \<^verbatim>\<open>dynamicArgAttribute\<close>: the whole match
  \<^verbatim>\<open>args[0]\<close> (its length is what the code advances by), the name \<^verbatim>\<open>args[1]\<close> and
  the value groups \<^verbatim>\<open>args[3]\<close>, \<^verbatim>\<open>args[4]\<close>, \<^verbatim>\<open>args[5]\<close>.
\<close>

record attrMatch =
  m_all :: string
  m_name :: string
  m_g3 :: "string option"
  m_g4 :: "string option"
  m_g5 :: "string option"

definition attr_name_char :: "char \<Rightarrow> bool" where
  "attr_name_char c =
     (\<not> is_space c \<and> c \<notin> set [CHR 0x22, CHR 0x27, CHR ''<'', CHR ''>'', CHR ''/'', CHR ''=''])"

text \<open>The name (from \<open>k\<close>, over \<open>n\<close> characters) followed by the optional value part.\<close>

definition withValue :: "string \<Rightarrow> nat \<Rightarrow> nat \<Rightarrow> attrMatch" where
  "withValue s k n =
     (case attrValue (drop (k + n) s) of
        Some (g3, g4, g5, m) \<Rightarrow>
          \<lparr>m_all = take (k + n + m) s, m_name = take n (drop k s), m_g3 = g3, m_g4 = g4, m_g5 = g5\<rparr>
      | None \<Rightarrow>
          \<lparr>m_all = take (k + n) s, m_name = take n (drop k s), m_g3 = None, m_g4 = None, m_g5 = None\<rparr>)"

text \<open>\<^verbatim>\<open>attribute = /^\s*([^\s"'<>\/=]+)(?:value)?/\<close>\<close>

definition attribute :: "string \<Rightarrow> attrMatch option" where
  "attribute s =
     (let k = length (takeWhile is_space s);
          n = length (takeWhile attr_name_char (drop k s)) in
      if 0 < n then Some (withValue s k n) else None)"

text \<open>
  \<^verbatim>\<open>dynamicArgAttribute = /^\s*((?:v-[\w-]+:|@|:|#)\[[^=]+\][^\s"'<>\/=]*)(?:value)?/\<close>.
  The length of the prefix \<^verbatim>\<open>v-[\w-]+:|@|:|#\<close>; then, after \<^verbatim>\<open>[\<close>, the greedy
  \<^verbatim>\<open>[^=]+\<close> gives characters back up to the last \<^verbatim>\<open>]\<close> it has run over, which at
  least one character must precede.
\<close>

definition dynPrefix :: "string \<Rightarrow> nat option" where
  "dynPrefix s =
     (if prefix ''v-'' s then
        let w = takeWhile (\<lambda>c. is_word c \<or> c = CHR ''-'') (drop 2 s) in
        if w \<noteq> [] \<and> prefix '':'' (drop (2 + length w) s) then Some (2 + length w + 1) else None
      else if prefix ''@'' s \<or> prefix '':'' s \<or> prefix ''#'' s then Some 1
      else None)"

fun lastBracket :: "string \<Rightarrow> nat option" where
  "lastBracket [] = None"
| "lastBracket (c # cs) =
     (case lastBracket cs of
        Some j \<Rightarrow> Some (Suc j)
      | None \<Rightarrow> if c = CHR '']'' then Some 0 else None)"

definition dynamicArgAttribute :: "string \<Rightarrow> attrMatch option" where
  "dynamicArgAttribute s =
     (let k = length (takeWhile is_space s) in
      case dynPrefix (drop k s) of
        None \<Rightarrow> None
      | Some p \<Rightarrow>
          if prefix ''['' (drop (k + p) s) then
            let run = takeWhile (\<lambda>c. c \<noteq> CHR ''='') (drop (k + p + 1) s) in
            (case lastBracket (drop 1 run) of
               None \<Rightarrow> None
             | Some j \<Rightarrow>
                 let b = p + 1 + (j + 1) + 1;
                     n = b + length (takeWhile attr_name_char (drop (k + b) s))
                 in Some (withValue s k n))
          else None)"


text \<open>\<^verbatim>\<open>s.substring(a, b)\<close>, which swaps its arguments when \<^verbatim>\<open>a > b\<close>.\<close>

definition substring :: "nat \<Rightarrow> nat \<Rightarrow> string \<Rightarrow> string" where
  "substring a b s = take (max a b - min a b) (drop (min a b) s)"

subsection \<open>Options, events and the state of the scanner\<close>

text \<open>
  The options the tokenizer reads. A callback is present or not (\<open>onStart\<close> is
  \<^verbatim>\<open>options.start\<close>, and so on); a call of a callback is an event. Three values come
  from outside the options: the build flag \<^verbatim>\<open>process.env.NODE_ENV !== 'production'\<close>
  (\<open>devBuild\<close>), and \<^verbatim>\<open>unicodeRegExp\<close> and \<^verbatim>\<open>isNonPhrasingTag\<close>, imported from
  modules that are not among the sources.
\<close>

record options =
  expectHTML :: bool
  isUnaryTag :: "(string \<Rightarrow> bool) option"
  canBeLeftOpenTag :: "(string \<Rightarrow> bool) option"
  shouldDecodeNewlines :: bool
  shouldDecodeNewlinesForHref :: bool
  shouldKeepComment :: bool
  outputSourceRange :: bool
  onStart :: bool
  onEnd :: bool
  onChars :: bool
  onWarn :: bool
  devBuild :: bool
  unicodeRegExp :: "char \<Rightarrow> bool"
  isNonPhrasingTag :: "string \<Rightarrow> bool"

datatype attr = Attr string string "(nat \<times> nat) option"

datatype pevent =
    EStart string "attr list" bool nat nat
  | EEnd string nat nat
  | EChars string "(nat \<times> nat) option"
  | EComment string nat nat
  | EWarn string "nat option" "nat option"

record entry =
  tag :: string
  lowerCasedTag :: string
  attrs :: "attr list"
  e_start :: nat
  e_end :: nat

text \<open>\<^verbatim>\<open>lastTag\<close> is \<^verbatim>\<open>undefined\<close> at first and \<^verbatim>\<open>0\<close> when the stack has been
  emptied: both are \<open>None\<close>, the code tests it for truthiness only.\<close>

record pstate =
  html :: string
  index :: nat
  stack :: "entry list"
  lastTag :: "string option"
  events :: "pevent list"

definition advance :: "nat \<Rightarrow> pstate \<Rightarrow> pstate" where
  "advance n st = st\<lparr>index := index st + n, html := drop n (html st)\<rparr>"

definition emit :: "pevent list \<Rightarrow> pstate \<Rightarrow> pstate" where
  "emit es st = st\<lparr>events := events st @ es\<rparr>"

text \<open>
  Modelled from the spec: \<^verbatim>\<open>makeMap\<close> of \<^verbatim>\<open>shared/util\<close>, which is not among the
  sources; with its second argument \<^verbatim>\<open>true\<close> the lookup lower-cases the tag.
\<close>

definition isPlainTextElement :: "string \<Rightarrow> bool" where
  "isPlainTextElement t = (toLowerCase t \<in> set [''script'', ''style'', ''textarea''])"

definition isIgnoreNewlineTag :: "string \<Rightarrow> bool" where
  "isIgnoreNewlineTag t = (toLowerCase t \<in> set [''pre'', ''textarea''])"

text \<open>\<^verbatim>\<open>(tag, html) => tag && isIgnoreNewlineTag(tag) && html[0] === '\n'\<close>\<close>

definition shouldIgnoreFirstNewline :: "string \<Rightarrow> string \<Rightarrow> bool" where
  "shouldIgnoreFirstNewline t h = (t \<noteq> [] \<and> isIgnoreNewlineTag t \<and> prefix [CHR 0x0A] h)"

subsection \<open>decodeAttr\<close>

definition decodingMap :: "(string \<times> char) list" where
  "decodingMap =
     [(''&lt;'', CHR ''<''), (''&gt;'', CHR ''>''), (''&quot;'', CHR 0x22), (''&amp;'', CHR ''&''),
      (''&#10;'', CHR 0x0A), (''&#9;'', CHR 0x09), (''&#39;'', CHR 0x27)]"

text \<open>\<^verbatim>\<open>encodedAttr\<close> and \<^verbatim>\<open>encodedAttrWithNewLines\<close>: the entities each one matches.\<close>

definition encoded :: "bool \<Rightarrow> string list" where
  "encoded newlines =
     [''&lt;'', ''&gt;'', ''&quot;'', ''&amp;'', ''&#39;''] @ (if newlines then [''&#10;'', ''&#9;''] else [])"

text \<open>\<^verbatim>\<open>value.replace(re, match => decodingMap[match])\<close>, from left to right; \<open>k\<close>
  counts the characters of an entity still to be skipped.\<close>

fun replaceEntities :: "string list \<Rightarrow> nat \<Rightarrow> string \<Rightarrow> string" where
  "replaceEntities es k [] = []"
| "replaceEntities es (Suc k) (c # cs) = replaceEntities es k cs"
| "replaceEntities es 0 (c # cs) =
     (case find (\<lambda>e. prefix e (c # cs)) es of
        Some e \<Rightarrow> (case map_of decodingMap e of
                     Some d \<Rightarrow> d # replaceEntities es (length e - 1) cs
                   | None \<Rightarrow> c # replaceEntities es 0 cs)
      | None \<Rightarrow> c # replaceEntities es 0 cs)"

definition decodeAttr :: "string \<Rightarrow> bool \<Rightarrow> string" where
  "decodeAttr v newlines = replaceEntities (encoded newlines) 0 v"

subsection \<open>parseEndTag\<close>

text \<open>The loop \<^verbatim>\<open>for (pos = stack.length - 1; pos >= 0; pos--)\<close>, started with
  \<open>n = stack.length\<close>; \<open>None\<close> is the \<^verbatim>\<open>-1\<close> it ends with when nothing matches.\<close>

fun findPos :: "entry list \<Rightarrow> string \<Rightarrow> nat \<Rightarrow> nat option" where
  "findPos st t 0 = None"
| "findPos st t (Suc p) = (if lowerCasedTag (st ! p) = t then Some p else findPos st t p)"

text \<open>What closing the entry at index \<open>i\<close> emits: the warning, then the end event.\<close>

definition closeEntry :: "options \<Rightarrow> bool \<Rightarrow> nat \<Rightarrow> nat \<Rightarrow> nat \<Rightarrow> entry list \<Rightarrow> nat \<Rightarrow> pevent list" where
  "closeEntry opts named pos start end st i =
     (if devBuild opts \<and> (i > pos \<or> \<not> named) \<and> onWarn opts
      then [EWarn (''tag <'' @ tag (st ! i) @ ''> has no matching end tag.'')
              (Some (e_start (st ! i))) (Some (e_end (st ! i)))]
      else []) @
     (if onEnd opts then [EEnd (tag (st ! i)) start end] else [])"

text \<open>The branch \<^verbatim>\<open>pos >= 0\<close>: the entries from the top down to \<open>pos\<close> are closed,
  the stack is cut to \<open>pos\<close> and \<^verbatim>\<open>lastTag = pos && stack[pos - 1].tag\<close>.\<close>

definition closeFrom :: "options \<Rightarrow> bool \<Rightarrow> nat \<Rightarrow> nat \<Rightarrow> nat \<Rightarrow> pstate \<Rightarrow> pstate" where
  "closeFrom opts named pos start end st =
     st\<lparr>events := events st @
           concat (map (closeEntry opts named pos start end (stack st))
                    (rev [pos ..< length (stack st)])),
        stack := take pos (stack st),
        lastTag := (if pos = 0 then None else Some (tag (stack st ! (pos - 1))))\<rparr>"

text \<open>\<^verbatim>\<open>parseEndTag (tagName, start, end)\<close>; an argument left out is \<open>None\<close>
  (\<^verbatim>\<open>if (start == null) start = index\<close>), and an empty tag name is as falsy as none.\<close>

definition orIndex :: "pstate \<Rightarrow> nat option \<Rightarrow> nat" where
  "orIndex st x = (case x of None \<Rightarrow> index st | Some y \<Rightarrow> y)"

definition parseEndTag ::
  "options \<Rightarrow> string option \<Rightarrow> nat option \<Rightarrow> nat option \<Rightarrow> pstate \<Rightarrow> pstate" where
  "parseEndTag opts tagName0 start0 end0 st =
     (let start = orIndex st start0; end = orIndex st end0
      in case tagName0 of
           None \<Rightarrow> closeFrom opts False 0 start end st
         | Some t \<Rightarrow>
             if t = [] then closeFrom opts False 0 start end st
             else
               let lowerCasedTagName = toLowerCase t in
               (case findPos (stack st) lowerCasedTagName (length (stack st)) of
                  Some pos \<Rightarrow> closeFrom opts True pos start end st
                | None \<Rightarrow>
                    if lowerCasedTagName = ''br'' then
                      emit (if onStart opts then [EStart t [] True start end] else []) st
                    else if lowerCasedTagName = ''p'' then
                      emit ((if onStart opts then [EStart t [] False start end] else []) @
                            (if onEnd opts then [EEnd t start end] else [])) st
                    else st))"

subsection \<open>parseStartTag and handleStartTag\<close>

record startMatch =
  tagName :: string
  m_attrs :: "(attrMatch \<times> nat \<times> nat) list"
  m_start :: nat
  unarySlash :: string
  m_end :: nat

text \<open>\<^verbatim>\<open>html.match(dynamicArgAttribute) || html.match(attribute)\<close>\<close>

definition anyAttribute :: "string \<Rightarrow> attrMatch option" where
  "anyAttribute s = (case dynamicArgAttribute s of Some m \<Rightarrow> Some m | None \<Rightarrow> attribute s)"


text \<open>The loop of \<^verbatim>\<open>parseStartTag\<close>: attributes are taken until the tag closes or
  nothing matches; the result is the state, the attributes with their positions, and
  the match of \<^verbatim>\<open>startTagClose\<close> if there is one.\<close>

lemma withValue_nonempty: "s \<noteq> [] \<Longrightarrow> 0 < n \<Longrightarrow> m_all (withValue s k n) \<noteq> []"
  by (cases s) (auto simp: withValue_def split: option.splits)

lemma attribute_nonempty: "attribute s = Some m \<Longrightarrow> m_all m \<noteq> []"
proof -
  assume a: "attribute s = Some m"
  let ?k = "length (takeWhile is_space s)"
  let ?n = "length (takeWhile attr_name_char (drop ?k s))"
  from a have n: "0 < ?n" and m: "m = withValue s ?k ?n"
    by (auto simp: attribute_def Let_def split: if_splits)
  from n have "s \<noteq> []" by auto
  from withValue_nonempty[OF this n] m show ?thesis by simp
qed

lemma dynamicArgAttribute_nonempty:
  assumes "dynamicArgAttribute s = Some m"
  shows "m_all m \<noteq> []"
proof -
  let ?k = "length (takeWhile is_space s)"
  from assms obtain p where p: "dynPrefix (drop ?k s) = Some p"
    by (auto simp: dynamicArgAttribute_def Let_def split: option.splits)
  then have "drop ?k s \<noteq> []"
    by (auto simp: dynPrefix_def)
  then have s: "s \<noteq> []" by auto
  from assms p obtain n where "m = withValue s ?k n" "0 < n"
    by (auto simp: dynamicArgAttribute_def Let_def split: option.splits if_splits)
  with withValue_nonempty[OF s] show ?thesis by simp
qed

lemma anyAttribute_nonempty: "anyAttribute s = Some m \<Longrightarrow> m_all m \<noteq> []"
  by (auto simp: anyAttribute_def attribute_nonempty dynamicArgAttribute_nonempty
      split: option.splits)

lemma anyAttribute_le: "anyAttribute s = Some m \<Longrightarrow> length (m_all m) \<le> length s"
  by (auto simp: anyAttribute_def attribute_def dynamicArgAttribute_def withValue_def Let_def
      split: option.splits if_splits)

function attrLoop ::
  "pstate \<Rightarrow> (attrMatch \<times> nat \<times> nat) list \<Rightarrow>
     pstate \<times> (attrMatch \<times> nat \<times> nat) list \<times> (string \<times> nat) option" where
  "attrLoop st acc =
     (case startTagClose (html st) of
        Some e \<Rightarrow> (st, acc, Some e)
      | None \<Rightarrow>
          (case anyAttribute (html st) of
             None \<Rightarrow> (st, acc, None)
           | Some m \<Rightarrow>
               attrLoop (advance (length (m_all m)) st)
                 (acc @ [(m, index st, index st + length (m_all m))])))"
  by pat_completeness auto
termination
proof (relation "measure (\<lambda>(st, acc). length (html st))")
  show "wf (measure (\<lambda>(st, acc). length (html st)))" by simp
next
  fix st :: pstate and acc :: "(attrMatch \<times> nat \<times> nat) list" and m
  assume "anyAttribute (html st) = Some m"
  from anyAttribute_nonempty[OF this] anyAttribute_le[OF this]
  show "((advance (length (m_all m)) st, acc @ [(m, index st, index st + length (m_all m))]), st, acc)
          \<in> measure (\<lambda>(st, acc). length (html st))"
    by (cases "m_all m") (auto simp: advance_def)
qed

text \<open>\<^verbatim>\<open>parseStartTag\<close>: the state moves on even when no match is returned.\<close>

definition parseStartTag :: "options \<Rightarrow> pstate \<Rightarrow> pstate \<times> startMatch option" where
  "parseStartTag opts st =
     (case startTagOpen (unicodeRegExp opts) (html st) of
        None \<Rightarrow> (st, None)
      | Some (name, n) \<Rightarrow>
          (case attrLoop (advance n st) [] of
             (st1, as, None) \<Rightarrow> (st1, None)
           | (st1, as, Some (slash, k)) \<Rightarrow>
               (advance k st1,
                Some \<lparr>tagName = name, m_attrs = as, m_start = index st, unarySlash = slash,
                      m_end = index st1 + k\<rparr>)))"

text \<open>One attribute of \<^verbatim>\<open>handleStartTag\<close>: \<^verbatim>\<open>args[3] || args[4] || args[5] || ''\<close>
  (an empty group is falsy), decoded; the range is kept in a development build with
  \<^verbatim>\<open>outputSourceRange\<close>.\<close>

definition orElse :: "string option \<Rightarrow> string \<Rightarrow> string" where
  "orElse g d = (case g of None \<Rightarrow> d | Some v \<Rightarrow> if v = [] then d else v)"

definition makeAttr :: "options \<Rightarrow> string \<Rightarrow> attrMatch \<times> nat \<times> nat \<Rightarrow> attr" where
  "makeAttr opts name a =
     (case a of (args, astart, aend) \<Rightarrow>
        let v = orElse (m_g3 args) (orElse (m_g4 args) (orElse (m_g5 args) []));
            nl = (if name = ''a'' \<and> m_name args = ''href''
                  then shouldDecodeNewlinesForHref opts else shouldDecodeNewlines opts)
        in Attr (m_name args) (decodeAttr v nl)
             (if devBuild opts \<and> outputSourceRange opts
              then Some (astart + length (takeWhile is_space (m_all args)), aend) else None))"

text \<open>\<^verbatim>\<open>options.isUnaryTag || no\<close>\<close>

definition orNo :: "(string \<Rightarrow> bool) option \<Rightarrow> string \<Rightarrow> bool" where
  "orNo f t = (case f of None \<Rightarrow> False | Some g \<Rightarrow> g t)"

definition handleStartTag :: "options \<Rightarrow> startMatch \<Rightarrow> pstate \<Rightarrow> pstate" where
  "handleStartTag opts m st =
     (let name = tagName m;
          st1 = (if expectHTML opts then
                   let a = (if lastTag st = Some ''p'' \<and> isNonPhrasingTag opts name
                            then parseEndTag opts (lastTag st) None None st else st)
                   in if orNo (canBeLeftOpenTag opts) name \<and> lastTag a = Some name
                      then parseEndTag opts (Some name) None None a else a
                 else st);
          unary = (orNo (isUnaryTag opts) name \<or> unarySlash m \<noteq> []);
          as = map (makeAttr opts name) (m_attrs m);
          st2 = (if \<not> unary
                 then st1\<lparr>stack := stack st1 @
                            [\<lparr>tag = name, lowerCasedTag = toLowerCase name, attrs = as,
                              e_start = m_start m, e_end = m_end m\<rparr>],
                          lastTag := Some name\<rparr>
                 else st1)
      in emit (if onStart opts then [EStart name as unary (m_start m) (m_end m)] else []) st2)"


subsection \<open>Text, raw-text elements and the main loop\<close>

text \<open>
  The inner loop of the text branch: while \<^verbatim>\<open>rest\<close> does not begin a construct, the
  next \<^verbatim>\<open><\<close> is looked for from position 1 and \<^verbatim>\<open>textEnd\<close> moves there.
\<close>

function textEndLoop :: "(char \<Rightarrow> bool) \<Rightarrow> string \<Rightarrow> nat \<Rightarrow> nat" where
  "textEndLoop U rest textEnd =
     (if endTag U rest \<noteq> None \<or> startTagOpen U rest \<noteq> None \<or> comment rest \<or>
         conditionalComment rest
      then textEnd
      else (case indexOf (CHR ''<'') (drop 1 rest) of
              None \<Rightarrow> textEnd
            | Some j \<Rightarrow> textEndLoop U (drop (Suc j) rest) (textEnd + Suc j)))"
  by pat_completeness auto
termination
proof (relation "measure (\<lambda>(U, rest, textEnd). length rest)")
  show "wf (measure (\<lambda>(U, rest, textEnd). length rest))" by simp
next
  fix U :: "char \<Rightarrow> bool" and rest :: string and textEnd j :: nat
  assume "indexOf (CHR ''<'') (drop 1 rest) = Some j"
  then have "rest \<noteq> []" by (cases rest) auto
  then show "((U, drop (Suc j) rest, textEnd + Suc j), U, rest, textEnd)
               \<in> measure (\<lambda>(U, rest, textEnd). length rest)"
    by (cases rest) auto
qed

text \<open>
  The text branch, entered with the \<^verbatim>\<open>textEnd\<close> computed at the top of the pass
  (\<open>None\<close> is \<^verbatim>\<open>-1\<close>) and the \<^verbatim>\<open>html\<close> of the moment.
\<close>

definition textPart :: "options \<Rightarrow> nat option \<Rightarrow> pstate \<Rightarrow> pstate" where
  "textPart opts textEnd0 st =
     (let h = html st;
          text = (case textEnd0 of
                    Some te \<Rightarrow> substring 0 (textEndLoop (unicodeRegExp opts) (drop te h) te) h
                  | None \<Rightarrow> h);
          st1 = (if text \<noteq> [] then advance (length text) st else st)
      in emit (if onChars opts \<and> text \<noteq> []
               then [EChars text (Some (index st1 - length text, index st1))] else []) st1)"

text \<open>
  The expression \<^verbatim>\<open>([\s\S]*?)(</stackedTag[^>]*>)\<close> with the flag \<^verbatim>\<open>i\<close>: where
  the first end tag of the element begins and how long it is. The lazy first group makes
  every match begin at the head of the string.
\<close>

fun findClose :: "string \<Rightarrow> string \<Rightarrow> (nat \<times> nat) option" where
  "findClose t [] = None"
| "findClose t (c # cs) =
     (let p = ''</'' @ t; r = drop (length p) (c # cs) in
      if toLowerCase (take (length p) (c # cs)) = p \<and> CHR ''>'' \<in> set r
      then Some (0, length p + length (takeWhile (\<lambda>x. x \<noteq> CHR ''>'') r) + 1)
      else map_option (\<lambda>(i, l). (Suc i, l)) (findClose t cs))"

text \<open>\<^verbatim>\<open>text.replace(/open([\s\S]*?)close/g, '$1')\<close>\<close>

function unwrap :: "string \<Rightarrow> string \<Rightarrow> string \<Rightarrow> string" where
  "unwrap op cl s =
     (case s of
        [] \<Rightarrow> []
      | c # cs \<Rightarrow>
          (case (if op \<noteq> [] \<and> prefix op s then indexOfStr cl (drop (length op) s) else None) of
             Some j \<Rightarrow> take j (drop (length op) s) @ unwrap op cl (drop (length op + j + length cl) s)
           | None \<Rightarrow> c # unwrap op cl cs))"
  by pat_completeness auto
termination
  by (relation "measure (\<lambda>(op, cl, s). length s)") (auto split: if_splits simp: prefix_def)

definition plainTextPart :: "options \<Rightarrow> string \<Rightarrow> pstate \<Rightarrow> pstate" where
  "plainTextPart opts lastTag0 st =
     (let stackedTag = toLowerCase lastTag0; h = html st in
      case findClose stackedTag h of
        Some (i, endTagLength) \<Rightarrow>
          let text0 = take i h;
              text1 = (if \<not> isPlainTextElement stackedTag \<and> stackedTag \<noteq> ''noscript''
                       then unwrap ''<![CDATA['' '']]>'' (unwrap ''<!--'' ''-->'' text0)
                       else text0);
              text2 = (if shouldIgnoreFirstNewline stackedTag text1 then drop 1 text1 else text1);
              st1 = emit (if onChars opts then [EChars text2 None] else []) st;
              rest = drop (i + endTagLength) h;
              st2 = st1\<lparr>index := index st1 + (length h - length rest), html := rest\<rparr>
          in parseEndTag opts (Some stackedTag) (Some (index st2 - endTagLength)) (Some (index st2)) st2
      | None \<Rightarrow> parseEndTag opts (Some stackedTag) (Some (index st)) (Some (index st)) st)"

text \<open>
  The branch for markup. The second component says that the pass ended in
  \<^verbatim>\<open>continue\<close>, which skips the test \<^verbatim>\<open>html === last\<close>.
\<close>

definition markupPart :: "options \<Rightarrow> pstate \<Rightarrow> pstate \<times> bool" where
  "markupPart opts st =
     (let h = html st; textEnd = indexOf (CHR ''<'') h in
      if textEnd = Some 0 then
        (case (if comment h then indexOfStr ''-->'' h else None) of
           Some commentEnd \<Rightarrow>
             (advance (commentEnd + 3)
                (emit (if shouldKeepComment opts
                       then [EComment (substring 4 commentEnd h) (index st) (index st + commentEnd + 3)]
                       else []) st), True)
         | None \<Rightarrow>
        (case (if conditionalComment h then indexOfStr '']>'' h else None) of
           Some conditionalEnd \<Rightarrow> (advance (conditionalEnd + 2) st, True)
         | None \<Rightarrow>
        (case doctype h of
           Some n \<Rightarrow> (advance n st, True)
         | None \<Rightarrow>
        (case endTag (unicodeRegExp opts) h of
           Some (name, n) \<Rightarrow>
             (let st1 = advance n st
              in (parseEndTag opts (Some name) (Some (index st)) (Some (index st1)) st1, True))
         | None \<Rightarrow>
        (case parseStartTag opts st of
           (st1, Some m) \<Rightarrow>
             (let st2 = handleStartTag opts m st1
              in (if shouldIgnoreFirstNewline (tagName m) (html st2) then advance 1 st2 else st2,
                  True))
         | (st1, None) \<Rightarrow> (textPart opts textEnd st1, False))))))
      else (textPart opts textEnd st, False))"

text \<open>One pass of \<^verbatim>\<open>while (html)\<close>, up to the test \<^verbatim>\<open>html === last\<close>.\<close>

definition parseStep :: "options \<Rightarrow> pstate \<Rightarrow> pstate \<times> bool" where
  "parseStep opts st =
     (case lastTag st of
        None \<Rightarrow> markupPart opts st
      | Some t \<Rightarrow> if \<not> isPlainTextElement t then markupPart opts st
                  else (plainTextPart opts t st, False))"

text \<open>What the code does when a pass has left \<^verbatim>\<open>html\<close> as it was, before \<^verbatim>\<open>break\<close>.\<close>

definition noProgress :: "options \<Rightarrow> pstate \<Rightarrow> pstate" where
  "noProgress opts st =
     emit ((if onChars opts then [EChars (html st) None] else []) @
           (if devBuild opts \<and> stack st = [] \<and> onWarn opts
            then [EWarn (''Mal-formatted tag at end of template: '' @ [CHR 0x22] @ html st @ [CHR 0x22])
                    (Some (index st + length (html st))) None]
            else [])) st"

declare attrLoop.simps [simp del] textEndLoop.simps [simp del] unwrap.simps [simp del]

lemma html_emit [simp]: "html (emit es st) = html st"
  by (simp add: emit_def)

lemma html_closeFrom [simp]: "html (closeFrom opts named pos a b st) = html st"
  by (simp add: closeFrom_def)

lemma html_parseEndTag [simp]: "html (parseEndTag opts t a b st) = html st"
  by (simp add: parseEndTag_def Let_def split: option.splits)

lemma html_handleStartTag [simp]: "html (handleStartTag opts m st) = html st"
  by (simp add: handleStartTag_def Let_def)

lemma html_advance [simp]: "html (advance n st) = drop n (html st)"
  by (simp add: advance_def)

lemma html_attrLoop: "\<exists>n. html (fst (attrLoop st acc)) = drop n (html st)"
proof (induction st acc rule: attrLoop.induct)
  case (1 st acc)
  show ?case
  proof (cases "startTagClose (html st)")
    case (Some e)
    then have "html (fst (attrLoop st acc)) = drop 0 (html st)"
      by (subst attrLoop.simps) simp
    then show ?thesis by blast
  next
    case None
    note close = this
    show ?thesis
    proof (cases "anyAttribute (html st)")
      case None
      with close have "html (fst (attrLoop st acc)) = drop 0 (html st)"
        by (subst attrLoop.simps) simp
      then show ?thesis by blast
    next
      case (Some m)
      from "1.IH"[OF close Some] obtain n where
        "html (fst (attrLoop (advance (length (m_all m)) st)
            (acc @ [(m, index st, index st + length (m_all m))])))
          = drop n (html (advance (length (m_all m)) st))" by blast
      with close Some have "html (fst (attrLoop st acc)) = drop (length (m_all m) + n) (html st)"
        by (subst attrLoop.simps) (simp add: add.commute)
      then show ?thesis by blast
    qed
  qed
qed

lemma startTagOpen_pos: "startTagOpen U s = Some (name, n) \<Longrightarrow> 0 < n"
  by (auto simp: startTagOpen_def split: list.splits if_splits)

lemma html_parseStartTag: "\<exists>n. html (fst (parseStartTag opts st)) = drop n (html st)"
proof (cases "startTagOpen (unicodeRegExp opts) (html st)")
  case None
  then have "html (fst (parseStartTag opts st)) = drop 0 (html st)"
    by (simp add: parseStartTag_def)
  then show ?thesis by blast
next
  case (Some a)
  obtain name n where a: "a = (name, n)" by (cases a)
  obtain st1 as e where l: "attrLoop (advance n st) [] = (st1, as, e)"
    by (cases "attrLoop (advance n st) []")
  from html_attrLoop[of "advance n st" "[]"] l obtain k where
    k: "html st1 = drop (k + n) (html st)" by auto
  show ?thesis
  proof (cases e)
    case None
    with Some a l k have "html (fst (parseStartTag opts st)) = drop (k + n) (html st)"
      by (simp add: parseStartTag_def)
    then show ?thesis by blast
  next
    case (Some b)
    obtain slash j where "b = (slash, j)" by (cases b)
    with \<open>startTagOpen (unicodeRegExp opts) (html st) = Some a\<close> Some a l k
    have "html (fst (parseStartTag opts st)) = drop (j + (k + n)) (html st)"
      by (simp add: parseStartTag_def)
    then show ?thesis by blast
  qed
qed

lemma parseStartTag_progress:
  assumes "parseStartTag opts st = (st1, Some m)" and "html st \<noteq> []"
  shows "length (html st1) < length (html st)"
proof -
  from assms(1) obtain name n where o: "startTagOpen (unicodeRegExp opts) (html st) = Some (name, n)"
    by (auto simp: parseStartTag_def split: option.splits)
  obtain st2 as e where l: "attrLoop (advance n st) [] = (st2, as, e)"
    by (cases "attrLoop (advance n st) []")
  from html_attrLoop[of "advance n st" "[]"] l obtain k where
    k: "html st2 = drop (k + n) (html st)" by auto
  from assms(1) o l obtain slash j where "st1 = advance j st2"
    by (auto simp: parseStartTag_def split: option.splits)
  with k have "html st1 = drop (j + (k + n)) (html st)" by simp
  with startTagOpen_pos[OF o] assms(2) show ?thesis by (cases "html st") auto
qed


lemma html_textPart: "\<exists>n. html (textPart opts te st) = drop n (html st)"
proof -
  let ?text = "case te of
                 Some t \<Rightarrow> substring 0 (textEndLoop (unicodeRegExp opts) (drop t (html st)) t) (html st)
               | None \<Rightarrow> html st"
  have "html (textPart opts te st) = drop (if ?text \<noteq> [] then length ?text else 0) (html st)"
    by (simp add: textPart_def Let_def)
  then show ?thesis by blast
qed

lemma html_plainTextPart: "\<exists>n. html (plainTextPart opts t st) = drop n (html st)"
proof (cases "findClose (toLowerCase t) (html st)")
  case None
  then have "html (plainTextPart opts t st) = drop 0 (html st)"
    by (simp add: plainTextPart_def Let_def)
  then show ?thesis by blast
next
  case (Some a)
  obtain i l where "a = (i, l)" by (cases a)
  with Some have "html (plainTextPart opts t st) = drop (i + l) (html st)"
    by (simp add: plainTextPart_def Let_def)
  then show ?thesis by blast
qed

lemma drop_shorter: "xs \<noteq> [] \<Longrightarrow> 0 < n \<Longrightarrow> length (drop n xs) < length xs"
  by (cases xs) auto

lemma drop_changed: "drop n xs \<noteq> xs \<Longrightarrow> length (drop n xs) < length xs"
  by (cases "n = 0"; cases xs) auto

lemma endTag_pos: "endTag U s = Some (name, n) \<Longrightarrow> 0 < n"
  by (auto simp: endTag_def Let_def split: option.splits if_splits)

lemma doctype_pos: "doctype s = Some n \<Longrightarrow> 0 < n"
  by (auto simp: doctype_def Let_def split: if_splits)

text \<open>A pass leaves a suffix of the input, and a shorter one when it ends in
  \<^verbatim>\<open>continue\<close>.\<close>

lemma markupPart_suffix: "\<exists>n. html (fst (markupPart opts st)) = drop n (html st)"
proof -
  obtain st1 m where p: "parseStartTag opts st = (st1, m)" by (cases "parseStartTag opts st")
  from html_parseStartTag[of opts st] p obtain k where k: "html st1 = drop k (html st)" by auto
  from html_textPart[of opts "indexOf (CHR ''<'') (html st)" st1] k obtain j where
    j: "html (textPart opts (indexOf (CHR ''<'') (html st)) st1) = drop (j + k) (html st)"
    by auto
  have a: "\<And>x. html x = drop k (html st) \<Longrightarrow> \<exists>n. html x = drop n (html st)"
    "\<And>x. html x = drop (Suc k) (html st) \<Longrightarrow> \<exists>n. html x = drop n (html st)"
    "\<And>x. html x = drop (j + k) (html st) \<Longrightarrow> \<exists>n. html x = drop n (html st)"
    by blast+
  show ?thesis
    using p k j html_textPart[of opts "indexOf (CHR ''<'') (html st)" st]
    by (auto simp: markupPart_def Let_def split: option.splits if_splits intro: a)
qed

lemma parseStep_suffix: "\<exists>n. html (fst (parseStep opts st)) = drop n (html st)"
  using markupPart_suffix[of opts st] html_plainTextPart[of opts _ st]
  by (auto simp: parseStep_def split: option.splits)

lemma markupPart_continue:
  assumes "html st \<noteq> []" and "markupPart opts st = (st', True)"
  shows "length (html st') < length (html st)"
proof -
  obtain st1 m where p: "parseStartTag opts st = (st1, m)" by (cases "parseStartTag opts st")
  have q: "\<And>mm. m = Some mm \<Longrightarrow> length (html st1) < length (html st)"
    using parseStartTag_progress[OF _ assms(1)] p by simp
  have r: "\<And>mm. m = Some mm \<Longrightarrow> length (html st1) - Suc 0 < length (html st)"
    using q by fastforce
  from assms p show ?thesis
    by (auto simp: markupPart_def Let_def drop_shorter endTag_pos doctype_pos q r
        split: option.splits if_splits)
qed

lemma parseStep_continue:
  assumes "html st \<noteq> []" and "parseStep opts st = (st', True)"
  shows "length (html st') < length (html st)"
  using assms markupPart_continue[of st opts st']
  by (auto simp: parseStep_def split: option.splits if_splits)

lemma parseStep_changed:
  assumes "parseStep opts st = (st', c)" and "html st' \<noteq> html st"
  shows "length (html st') < length (html st)"
proof -
  from parseStep_suffix[of opts st] assms(1) obtain n where "html st' = drop n (html st)" by auto
  with assms(2) drop_changed[of n "html st"] show ?thesis by simp
qed

text \<open>
  The loop \<^verbatim>\<open>while (html)\<close>: it ends when the input is used up, or, through
  \<^verbatim>\<open>break\<close>, after a pass that did not end in \<^verbatim>\<open>continue\<close> and left \<^verbatim>\<open>html\<close>
  equal to \<^verbatim>\<open>last\<close>.
\<close>

function parseLoop :: "options \<Rightarrow> pstate \<Rightarrow> pstate" where
  "parseLoop opts st =
     (if html st = [] then st
      else (case parseStep opts st of
              (st', True) \<Rightarrow> parseLoop opts st'
            | (st', False) \<Rightarrow>
                if html st' = html st then noProgress opts st' else parseLoop opts st'))"
  by pat_completeness auto
termination
  apply (relation "measure (\<lambda>(opts, st). length (html st))")
  apply simp
  apply (simp add: parseStep_continue)
  apply (metis (no_types) in_measure case_prod_conv parseStep_changed)
  done

declare parseLoop.simps [simp del]

text \<open>\<^verbatim>\<open>parseHTML (html, options)\<close>: the loop, then \<^verbatim>\<open>parseEndTag()\<close> for the tags
  still open. The result is the final state, with the events in the order of the calls.\<close>

definition parseHTML :: "string \<Rightarrow> options \<Rightarrow> pstate" where
  "parseHTML h opts =
     parseEndTag opts None None None
       (parseLoop opts \<lparr>html = h, index = 0, stack = [], lastTag = None, events = []\<rparr>)"

definition allOptions :: options where
  "allOptions =
     \<lparr>expectHTML = True, isUnaryTag = Some (\<lambda>t. t \<in> set [''br'', ''img'', ''input'', ''hr'']),
      canBeLeftOpenTag = Some (\<lambda>t. t \<in> set [''li'', ''p'', ''td'']),
      shouldDecodeNewlines = False, shouldDecodeNewlinesForHref = False,
      shouldKeepComment = True, outputSourceRange = False,
      onStart = True, onEnd = True, onChars = True, onWarn = True, devBuild = True,
      unicodeRegExp = (\<lambda>c. False), isNonPhrasingTag = (\<lambda>t. t \<in> set [''div'', ''ul'', ''p''])\<rparr>"

text \<open>The loop with a budget of passes: \<open>None\<close> when the budget runs out first.\<close>

fun parseBounded :: "nat \<Rightarrow> options \<Rightarrow> pstate \<Rightarrow> pstate option" where
  "parseBounded 0 opts st = (if html st = [] then Some st else None)"
| "parseBounded (Suc n) opts st =
     (if html st = [] then Some st
      else (case parseStep opts st of
              (st', True) \<Rightarrow> parseBounded n opts st'
            | (st', False) \<Rightarrow>
                if html st' = html st then Some (noProgress opts st') else parseBounded n opts st'))"

text \<open>Concrete inputs: an options object with every callback, in a development build;
  the state in which \<^verbatim>\<open>parseHTML\<close> starts; the diagnostic of the no-progress exit; a
  stack of three open elements.\<close>

definition scanStart :: "string \<Rightarrow> pstate" where
  "scanStart h = \<lparr>html = h, index = 0, stack = [], lastTag = None, events = []\<rparr>"

definition malformed :: "string \<Rightarrow> nat \<Rightarrow> pevent" where
  "malformed h i =
     EWarn (''Mal-formatted tag at end of template: '' @ [CHR 0x22] @ h @ [CHR 0x22]) (Some i) None"

definition opened :: "string \<Rightarrow> nat \<Rightarrow> nat \<Rightarrow> entry" where
  "opened t a b = \<lparr>tag = t, lowerCasedTag = toLowerCase t, attrs = [], e_start = a, e_end = b\<rparr>"

definition state6 :: pstate where
  "state6 = \<lparr>html = ''x'', index = 30,
              stack = [opened ''div'' 0 5, opened ''SPAN'' 5 11, opened ''b'' 11 14],
              lastTag = Some ''b'', events = []\<rparr>"

lemma parseLoop_code [code]:
  "parseLoop opts st =
     (if html st = [] then st
      else if snd (parseStep opts st) then parseLoop opts (fst (parseStep opts st))
      else if html (fst (parseStep opts st)) = html st then noProgress opts (fst (parseStep opts st))
      else parseLoop opts (fst (parseStep opts st)))"
  by (subst parseLoop.simps) (simp split: prod.splits bool.splits)

section \<open>End tags\<close>

lemma findPos_Some:
  "findPos st t n = Some p \<longleftrightarrow>
     p < n \<and> lowerCasedTag (st ! p) = t \<and> (\<forall>i. p < i \<and> i < n \<longrightarrow> lowerCasedTag (st ! i) \<noteq> t)"
proof (induction n)
  case 0
  show ?case by simp
next
  case (Suc n)
  show ?case
  proof (cases "lowerCasedTag (st ! n) = t")
    case True
    then show ?thesis
      by (auto simp: less_Suc_eq)
  next
    case False
    then show ?thesis
      using Suc by (auto simp: less_Suc_eq)
  qed
qed

lemma findPos_None:
  "findPos st t n = None \<longleftrightarrow> (\<forall>i < n. lowerCasedTag (st ! i) \<noteq> t)"
  by (induction n) (auto simp: less_Suc_eq)

text \<open>
  C6. An end tag with a name is looked for from the top of the stack, comparing
  lower-cased names. When \<open>pos\<close> is the topmost match, the entries from the top down to
  \<open>pos\<close> are closed in that order, each with an end event, and each entry above \<open>pos\<close>
  with the diagnostic "has no matching end tag" before it (the matched entry has none);
  the stack is cut to \<open>pos\<close>. When nothing matches, the stack and \<^verbatim>\<open>lastTag\<close> are
  unchanged; \<^verbatim>\<open></br>\<close> gives a unary start event, \<^verbatim>\<open></p>\<close> a start and an end
  event, any other name nothing. Events go to the callbacks that are supplied, and
  diagnostics are given in a development build.
\<close>

theorem parseEndTag_named:
  assumes "t \<noteq> []"
    and st'_def: "st' = parseEndTag opts (Some t) start0 end0 st"
    and a_def: "a = orIndex st start0" and b_def: "b = orIndex st end0"
  shows "(\<forall>pos. pos < length (stack st) \<and> lowerCasedTag (stack st ! pos) = toLowerCase t \<and>
            (\<forall>i. pos < i \<and> i < length (stack st) \<longrightarrow> lowerCasedTag (stack st ! i) \<noteq> toLowerCase t)
          \<longrightarrow> stack st' = take pos (stack st) \<and>
              events st' = events st @
                concat (map (\<lambda>i. (if devBuild opts \<and> onWarn opts \<and> pos < i
                                   then [EWarn (''tag <'' @ tag (stack st ! i) @ ''> has no matching end tag.'')
                                           (Some (e_start (stack st ! i))) (Some (e_end (stack st ! i)))]
                                   else []) @
                                  (if onEnd opts then [EEnd (tag (stack st ! i)) a b] else []))
                         (rev [pos ..< length (stack st)]))) \<and>
         ((\<forall>i < length (stack st). lowerCasedTag (stack st ! i) \<noteq> toLowerCase t)
          \<longrightarrow> stack st' = stack st \<and> lastTag st' = lastTag st \<and>
              events st' = events st @
                (if toLowerCase t = ''br'' then (if onStart opts then [EStart t [] True a b] else [])
                 else if toLowerCase t = ''p''
                 then (if onStart opts then [EStart t [] False a b] else []) @
                      (if onEnd opts then [EEnd t a b] else [])
                 else []))"
proof (intro conjI allI impI)
  fix pos
  assume p: "pos < length (stack st) \<and> lowerCasedTag (stack st ! pos) = toLowerCase t \<and>
            (\<forall>i. pos < i \<and> i < length (stack st) \<longrightarrow> lowerCasedTag (stack st ! i) \<noteq> toLowerCase t)"
  then have f: "findPos (stack st) (toLowerCase t) (length (stack st)) = Some pos"
    by (simp add: findPos_Some)
  have c: "\<And>x y. closeEntry opts True pos x y (stack st) =
        (\<lambda>i. (if devBuild opts \<and> onWarn opts \<and> pos < i
               then [EWarn (''tag <'' @ tag (stack st ! i) @ ''> has no matching end tag.'')
                       (Some (e_start (stack st ! i))) (Some (e_end (stack st ! i)))]
               else []) @
              (if onEnd opts then [EEnd (tag (stack st ! i)) x y] else []))"
    by (rule ext) (auto simp: closeEntry_def)
  from assms(1) f show "stack st' = take pos (stack st)"
    by (simp add: st'_def parseEndTag_def closeFrom_def Let_def)
  from assms(1) f show "events st' = events st @
                concat (map (\<lambda>i. (if devBuild opts \<and> onWarn opts \<and> pos < i
                                   then [EWarn (''tag <'' @ tag (stack st ! i) @ ''> has no matching end tag.'')
                                           (Some (e_start (stack st ! i))) (Some (e_end (stack st ! i)))]
                                   else []) @
                                  (if onEnd opts then [EEnd (tag (stack st ! i)) a b] else []))
                         (rev [pos ..< length (stack st)]))"
    unfolding a_def b_def by (simp add: st'_def parseEndTag_def closeFrom_def c Let_def)
next
  assume "\<forall>i < length (stack st). lowerCasedTag (stack st ! i) \<noteq> toLowerCase t"
  then have f: "findPos (stack st) (toLowerCase t) (length (stack st)) = None"
    by (simp add: findPos_None)
  from assms(1) f show "stack st' = stack st" "lastTag st' = lastTag st"
    "events st' = events st @
                (if toLowerCase t = ''br'' then (if onStart opts then [EStart t [] True a b] else [])
                 else if toLowerCase t = ''p''
                 then (if onStart opts then [EStart t [] False a b] else []) @
                      (if onEnd opts then [EEnd t a b] else [])
                 else [])"
    unfolding a_def b_def by (simp_all add: st'_def parseEndTag_def emit_def Let_def)
qed

theorem parseEndTag_named_witness:
  "stack (parseEndTag allOptions (Some ''Span'') (Some 24) (Some 30) state6) = [opened ''div'' 0 5] \<and>
   events (parseEndTag allOptions (Some ''Span'') (Some 24) (Some 30) state6) =
     [EWarn ''tag <b> has no matching end tag.'' (Some 11) (Some 14), EEnd ''b'' 24 30,
      EEnd ''SPAN'' 24 30] \<and>
   stack (parseEndTag allOptions (Some ''BR'') (Some 24) (Some 30) state6) = stack state6 \<and>
   events (parseEndTag allOptions (Some ''BR'') (Some 24) (Some 30) state6) =
     [EStart ''BR'' [] True 24 30]"
proof -
  have l: "length (stack state6) = 3" by (simp add: state6_def)
  have t: "toLowerCase ''Span'' = ''span''" "toLowerCase ''BR'' = ''br''" by code_simp+
  have s: "lowerCasedTag (stack state6 ! 0) = ''div''" "lowerCasedTag (stack state6 ! 1) = ''span''"
    "lowerCasedTag (stack state6 ! 2) = ''b''" "lowerCasedTag (stack state6 ! Suc 0) = ''span''"
    by code_simp+
  have c1: "1 < length (stack state6) \<and> lowerCasedTag (stack state6 ! 1) = toLowerCase ''Span'' \<and>
        (\<forall>i. 1 < i \<and> i < length (stack state6) \<longrightarrow> lowerCasedTag (stack state6 ! i) \<noteq> toLowerCase ''Span'')"
  proof (intro conjI allI impI)
    fix i assume "1 < i \<and> i < length (stack state6)"
    then have "i = 2" using l by simp
    then show "lowerCasedTag (stack state6 ! i) \<noteq> toLowerCase ''Span''" by (simp add: s t)
  qed (simp_all add: l t s)
  have c2: "\<forall>i < length (stack state6). lowerCasedTag (stack state6 ! i) \<noteq> toLowerCase ''BR''"
  proof (intro allI impI)
    fix i assume "i < length (stack state6)"
    then have "i = 0 \<or> i = 1 \<or> i = 2" using l by auto
    then show "lowerCasedTag (stack state6 ! i) \<noteq> toLowerCase ''BR''" by (auto simp: s t)
  qed
  have o: "onStart allOptions" "devBuild allOptions" "onWarn allOptions" "onEnd allOptions"
    by (simp_all add: allOptions_def)
  have ix: "orIndex state6 (Some 24) = 24" "orIndex state6 (Some 30) = 30"
    by (simp_all add: orIndex_def)
  have tg: "tag (stack state6 ! 1) = ''SPAN''" "tag (stack state6 ! 2) = ''b''"
    "e_start (stack state6 ! 2) = 11" "e_end (stack state6 ! 2) = 14"
    "take 1 (stack state6) = [opened ''div'' 0 5]"
    by (simp_all add: state6_def opened_def)
  have r: "rev [1 ..< 3] = [2, 1::nat]" by (simp add: upt_rec)
  have ne: "''Span'' \<noteq> []" "''BR'' \<noteq> []" by simp_all
  from parseEndTag_named[OF ne(1) refl ix(1)[symmetric] ix(2)[symmetric], of allOptions,
         THEN conjunct1, rule_format, OF c1]
  have a: "stack (parseEndTag allOptions (Some ''Span'') (Some 24) (Some 30) state6) = [opened ''div'' 0 5] \<and>
   events (parseEndTag allOptions (Some ''Span'') (Some 24) (Some 30) state6) =
     [EWarn ''tag <b> has no matching end tag.'' (Some 11) (Some 14), EEnd ''b'' 24 30,
      EEnd ''SPAN'' 24 30]"
    by (simp only: o l tg r) (simp add: tg state6_def opened_def)
  from parseEndTag_named[OF ne(2) refl ix(1)[symmetric] ix(2)[symmetric], of allOptions,
         THEN conjunct2, THEN mp, OF c2]
  have b: "stack (parseEndTag allOptions (Some ''BR'') (Some 24) (Some 30) state6) = stack state6 \<and>
   events (parseEndTag allOptions (Some ''BR'') (Some 24) (Some 30) state6) =
     [EStart ''BR'' [] True 24 30]"
    by (simp add: o t) (simp add: state6_def)
  from a b show ?thesis by simp
qed

section \<open>The scanner stops\<close>

lemma parseBounded_enough:
  "length (html st) \<le> n \<Longrightarrow> parseBounded n opts st = Some (parseLoop opts st)"
proof (induction n arbitrary: st)
  case 0
  then show ?case by (simp add: parseLoop.simps)
next
  case (Suc n)
  show ?case
  proof (cases "html st = []")
    case True
    then show ?thesis by (simp add: parseLoop.simps)
  next
    case False
    obtain st' c where p: "parseStep opts st = (st', c)" by (cases "parseStep opts st")
    show ?thesis
    proof (cases "c \<or> html st' \<noteq> html st")
      case True
      then have "length (html st') < length (html st)"
        using parseStep_continue[OF False, of opts st'] parseStep_changed[OF p] p by auto
      with Suc.prems have "length (html st') \<le> n" by simp
      from Suc.IH[OF this] True False p show ?thesis
        by (subst parseLoop.simps) (auto split: bool.splits)
    next
      case False
      with \<open>html st \<noteq> []\<close> p show ?thesis
        by (subst parseLoop.simps) (auto split: bool.splits)
    qed
  qed
qed

text \<open>
  C5 (as amended). For every input the loop of \<^verbatim>\<open>parseHTML\<close> ends, within as many
  passes as the input has characters. When a pass leaves the remaining input unchanged,
  the loop stops there: the remaining input is given verbatim to \<^verbatim>\<open>chars\<close> and stays
  unread, and it is diagnosed as a mal-formatted tag when no element is open (in a
  development build with a \<^verbatim>\<open>warn\<close> callback).
\<close>

theorem parseLoop_stops:
  "parseBounded (length (html st)) opts st = Some (parseLoop opts st) \<and>
   (html st \<noteq> [] \<and> parseStep opts st = (st', False) \<and> html st' = html st \<longrightarrow>
      parseLoop opts st = noProgress opts st' \<and>
      html (parseLoop opts st) = html st \<and>
      events (parseLoop opts st) =
        events st' @ (if onChars opts then [EChars (html st) None] else []) @
        (if devBuild opts \<and> stack st' = [] \<and> onWarn opts
         then [malformed (html st) (index st' + length (html st))] else []))"
proof (intro conjI impI)
  show "parseBounded (length (html st)) opts st = Some (parseLoop opts st)"
    by (rule parseBounded_enough) simp
next
  assume a: "html st \<noteq> [] \<and> parseStep opts st = (st', False) \<and> html st' = html st"
  then show l: "parseLoop opts st = noProgress opts st'"
    by (subst parseLoop.simps) simp
  from a show "html (parseLoop opts st) = html st"
    unfolding l by (simp add: noProgress_def)
  from a show "events (parseLoop opts st) =
        events st' @ (if onChars opts then [EChars (html st) None] else []) @
        (if devBuild opts \<and> stack st' = [] \<and> onWarn opts
         then [malformed (html st) (index st' + length (html st))] else [])"
    unfolding l by (simp add: noProgress_def emit_def malformed_def)
qed

theorem parseLoop_stops_witness:
  "html (scanStart ''<'') \<noteq> [] \<and>
   parseStep allOptions (scanStart ''<'') = (scanStart ''<'', False) \<and>
   parseBounded 1 allOptions (scanStart ''<'') = Some (parseLoop allOptions (scanStart ''<'')) \<and>
   html (parseLoop allOptions (scanStart ''<'')) = ''<'' \<and>
   events (parseLoop allOptions (scanStart ''<'')) = [EChars ''<'' None, malformed ''<'' 1]"
proof -
  let ?s = "scanStart ''<''"
  have h: "html ?s \<noteq> []" by (simp add: scanStart_def)
  have p: "parseStep allOptions ?s = (?s, False)" by code_simp
  have o: "onChars allOptions" "devBuild allOptions" "onWarn allOptions"
    by (simp_all add: allOptions_def)
  have f: "html ?s = ''<''" "length (html ?s) = 1" "stack ?s = []" "events ?s = []" "index ?s = 0"
    by (simp_all add: scanStart_def)
  note t = parseLoop_stops[of ?s allOptions ?s]
  from t have "parseBounded (length (html ?s)) allOptions ?s = Some (parseLoop allOptions ?s)"
    by (rule conjunct1)
  then have b: "parseBounded 1 allOptions ?s = Some (parseLoop allOptions ?s)"
    by (simp only: f(2))
  from t h p have c: "html (parseLoop allOptions ?s) = html ?s \<and>
      events (parseLoop allOptions ?s) =
        events ?s @ (if onChars allOptions then [EChars (html ?s) None] else []) @
        (if devBuild allOptions \<and> stack ?s = [] \<and> onWarn allOptions
         then [malformed (html ?s) (index ?s + length (html ?s))] else [])"
    by blast
  from c have d: "html (parseLoop allOptions ?s) = ''<''"
    "events (parseLoop allOptions ?s) = [EChars ''<'' None, malformed ''<'' 1]"
    by (simp_all add: f o)
  from h p b d show ?thesis by blast
qed

text \<open>
  With an element open the fragment is not diagnosed: on \<^verbatim>\<open><div><\<close> the second pass
  makes no progress, \<^verbatim>\<open><\<close> is given to \<^verbatim>\<open>chars\<close>, and the only diagnostic is the one
  for the unclosed \<^verbatim>\<open>div\<close>.
\<close>

lemma divlt_first: "parseStep allOptions (scanStart ''<div><'') =
    (\<lparr>html = ''<'', index = 5, stack = [\<lparr>tag = ''div'', lowerCasedTag = ''div'', attrs = [], e_start = 0, e_end = 5\<rparr>],
      lastTag = Some ''div'', events = [EStart ''div'' [] False 0 5]\<rparr>, True)"
  by code_simp

lemma divlt_second: "parseStep allOptions
    \<lparr>html = ''<'', index = 5, stack = [\<lparr>tag = ''div'', lowerCasedTag = ''div'', attrs = [], e_start = 0, e_end = 5\<rparr>],
      lastTag = Some ''div'', events = [EStart ''div'' [] False 0 5]\<rparr> =
    (\<lparr>html = ''<'', index = 5, stack = [\<lparr>tag = ''div'', lowerCasedTag = ''div'', attrs = [], e_start = 0, e_end = 5\<rparr>],
      lastTag = Some ''div'', events = [EStart ''div'' [] False 0 5]\<rparr>, False)"
  by code_simp

lemma divlt_events: "events (parseHTML ''<div><'' allOptions) =
     [EStart ''div'' [] False 0 5, EChars ''<'' None,
      EWarn ''tag <div> has no matching end tag.'' (Some 0) (Some 5), EEnd ''div'' 5 5]"
  by code_simp

theorem parseHTML_open_element_counterexample:
  "html (fst (parseStep allOptions (scanStart ''<div><''))) = ''<'' \<and>
   parseStep allOptions (fst (parseStep allOptions (scanStart ''<div><''))) =
     (fst (parseStep allOptions (scanStart ''<div><'')), False) \<and>
   devBuild allOptions \<and> onWarn allOptions \<and> onChars allOptions \<and>
   events (parseHTML ''<div><'' allOptions) =
     [EStart ''div'' [] False 0 5, EChars ''<'' None,
      EWarn ''tag <div> has no matching end tag.'' (Some 0) (Some 5), EEnd ''div'' 5 5] \<and>
   malformed ''<'' 6 \<notin> set (events (parseHTML ''<div><'' allOptions))"
  by (simp add: divlt_first divlt_second divlt_events malformed_def) (simp add: allOptions_def)

section \<open>The cached compiler (compiler/to-function.js)\<close>

text \<open>
  What \<^verbatim>\<open>compile\<close> returns: the source of the render function, the sources of the
  static render functions, and the diagnostics (a message, with a range when source
  ranges are asked for).
\<close>

datatype diag = Diag string "nat option" "nat option"

record compiled =
  render :: string
  staticRenderFns :: "string list"
  errors :: "diag list"
  tips :: "diag list"

text \<open>
  The options as far as this file reads them: \<^verbatim>\<open>delimiters\<close> (absent, or an array of
  strings), \<^verbatim>\<open>outputSourceRange\<close>, whether a \<^verbatim>\<open>warn\<close> function is supplied, and
  whatever else the caller passes on to \<^verbatim>\<open>compile\<close>.
\<close>

record 'a coptions =
  delimiters :: "string list option"
  sourceRange :: bool
  customWarn :: bool
  others :: 'a

text \<open>A function made by \<^verbatim>\<open>new Function(code)\<close>, or \<^verbatim>\<open>noop\<close>.\<close>

datatype fn = Fn string | Noop

text \<open>
  The result object \<^verbatim>\<open>res = {}\<close>. It is a new object at every compilation: \<open>ref\<close> is
  its identity, taken from a counter of the objects made so far.
\<close>

record cres =
  ref :: nat
  resRender :: fn
  resStaticRenderFns :: "fn list"

text \<open>
  The state: the \<^verbatim>\<open>cache\<close> of the closure, the object counter, the calls of
  \<^verbatim>\<open>compile\<close> made so far (template and options), and the messages given to
  \<^verbatim>\<open>warn\<close> and \<^verbatim>\<open>tip\<close>.
\<close>

record 'a cstate =
  cache :: "string \<rightharpoonup> cres"
  nextRef :: nat
  compileCalls :: "(string \<times> 'a coptions) list"
  warned :: "string list"
  tipped :: "string list"

text \<open>
  The environment: \<^verbatim>\<open>new Function(code)\<close> returns, or throws an error with a message
  (\<open>Inl\<close>); \<^verbatim>\<open>process.env.NODE_ENV !== 'production'\<close>; \<^verbatim>\<open>compile\<close>, which returns
  or throws; and \<^verbatim>\<open>generateCodeFrame\<close>, which is not among the sources.
\<close>

record 'a cenv =
  newFunction :: "string \<Rightarrow> string + unit"
  development :: bool
  compile :: "string \<Rightarrow> 'a coptions \<Rightarrow> string + compiled"
  generateCodeFrame :: "string \<Rightarrow> nat option \<Rightarrow> nat option \<Rightarrow> string"

text \<open>\<^verbatim>\<open>createFunction (code, errors)\<close>: the function, and the errors with the new one
  pushed when \<^verbatim>\<open>new Function\<close> throws.\<close>

definition createFunction ::
  "'a cenv \<Rightarrow> string \<Rightarrow> (string \<times> string) list \<Rightarrow> fn \<times> (string \<times> string) list" where
  "createFunction env code errs =
     (case newFunction env code of
        Inr _ \<Rightarrow> (Fn code, errs)
      | Inl err \<Rightarrow> (Noop, errs @ [(err, code)]))"

text \<open>\<^verbatim>\<open>compiled.staticRenderFns.map(code => createFunction(code, fnGenErrors))\<close>\<close>

fun createFunctions ::
  "'a cenv \<Rightarrow> string list \<Rightarrow> (string \<times> string) list \<Rightarrow> fn list \<times> (string \<times> string) list" where
  "createFunctions env [] errs = ([], errs)"
| "createFunctions env (c # cs) errs =
     (case createFunction env c errs of
        (f, errs1) \<Rightarrow> (case createFunctions env cs errs1 of (fs, errs2) \<Rightarrow> (f # fs, errs2)))"

text \<open>\<^verbatim>\<open>String(options.delimiters)\<close>: the elements joined by commas.\<close>

fun joinComma :: "string list \<Rightarrow> string" where
  "joinComma [] = []"
| "joinComma [x] = x"
| "joinComma (x # y # ys) = x @ '','' @ joinComma (y # ys)"

text \<open>\<^verbatim>\<open>options.delimiters ? String(options.delimiters) + template : template\<close>\<close>

definition cacheKey :: "'a coptions \<Rightarrow> string \<Rightarrow> string" where
  "cacheKey options template =
     (case delimiters options of None \<Rightarrow> template | Some ds \<Rightarrow> joinComma ds @ template)"

text \<open>The test \<^verbatim>\<open>e.toString().match(/unsafe-eval|CSP/)\<close>.\<close>

definition contains :: "string \<Rightarrow> string \<Rightarrow> bool" where
  "contains pat s = (indexOfStr pat s \<noteq> None)"

definition cspWarning :: "'a cenv \<Rightarrow> string list" where
  "cspWarning env =
     (if development env then
        (case newFunction env ''return 1'' of
           Inr _ \<Rightarrow> []
         | Inl e \<Rightarrow> if contains ''unsafe-eval'' e \<or> contains ''CSP'' e
                    then [''It seems you are using the standalone build of Vue.js in an environment with Content Security Policy that prohibits unsafe-eval.'']
                    else [])
      else [])"

text \<open>The messages for the errors and the tips of a compilation, in a development
  build.\<close>

definition diagMsg :: "diag \<Rightarrow> string" where
  "diagMsg d = (case d of Diag m a b \<Rightarrow> m)"

definition errorWarnings :: "'a cenv \<Rightarrow> 'a coptions \<Rightarrow> string \<Rightarrow> compiled \<Rightarrow> string list" where
  "errorWarnings env options template c =
     (if development env \<and> errors c \<noteq> [] then
        (if sourceRange options
         then map (\<lambda>d. case d of Diag m a b \<Rightarrow>
                     ''Error compiling template:'' @ m @ generateCodeFrame env template a b) (errors c)
         else [''Error compiling template:'' @ template @
               concat (map (\<lambda>d. ''- '' @ diagMsg d) (errors c))])
      else [])"

definition tipMessages :: "'a cenv \<Rightarrow> compiled \<Rightarrow> string list" where
  "tipMessages env c = (if development env then map diagMsg (tips c) else [])"

definition genWarnings :: "'a cenv \<Rightarrow> compiled \<Rightarrow> (string \<times> string) list \<Rightarrow> string list" where
  "genWarnings env c fnGenErrors =
     (if development env \<and> errors c = [] \<and> fnGenErrors \<noteq> []
      then [''Failed to generate render function:'' @
            concat (map (\<lambda>(e, code). e @ '' in '' @ code) fnGenErrors)]
      else [])"

text \<open>
  \<^verbatim>\<open>compileToFunctions (template, options, vm)\<close>, the function that
  \<^verbatim>\<open>createCompileToFunctionFn(compile)\<close> returns; the copy of the options that goes to
  \<^verbatim>\<open>compile\<close> has \<^verbatim>\<open>warn\<close> deleted. The result is the object returned (\<open>Inr\<close>) or
  the exception of \<^verbatim>\<open>compile\<close> (\<open>Inl\<close>).
\<close>

definition compileToFunctions ::
  "'a cenv \<Rightarrow> string \<Rightarrow> 'a coptions \<Rightarrow> 'a cstate \<Rightarrow> 'a cstate \<times> (string + cres)" where
  "compileToFunctions env template options0 s =
     (let options = options0\<lparr>customWarn := False\<rparr>;
          s1 = s\<lparr>warned := warned s @ cspWarning env\<rparr>;
          key = cacheKey options template
      in case cache s1 key of
           Some r \<Rightarrow> (s1, Inr r)
         | None \<Rightarrow>
             let s2 = s1\<lparr>compileCalls := compileCalls s1 @ [(template, options)]\<rparr> in
             (case compile env template options of
                Inl e \<Rightarrow> (s2, Inl e)
              | Inr c \<Rightarrow>
                  (case createFunction env (render c) [] of
                     (f, errs1) \<Rightarrow>
                  (case createFunctions env (staticRenderFns c) errs1 of
                     (fs, fnGenErrors) \<Rightarrow>
                       let res = \<lparr>ref = nextRef s2, resRender = f, resStaticRenderFns = fs\<rparr>
                       in (s2\<lparr>warned := warned s2 @ errorWarnings env options template c @
                                          genWarnings env c fnGenErrors,
                              tipped := tipped s2 @ tipMessages env c,
                              nextRef := Suc (nextRef s2),
                              cache := (cache s2)(key \<mapsto> res)\<rparr>, Inr res)))))"

text \<open>A concrete compiler, its options and the state with an empty cache.\<close>

definition env4 :: "string cenv" where
  "env4 = \<lparr>newFunction = (\<lambda>code. Inr ()), development = True,
            compile = (\<lambda>t opts. Inr \<lparr>render = ''with(this){}'', staticRenderFns = [''s0''],
                                       errors = [], tips = []\<rparr>),
            generateCodeFrame = (\<lambda>t a b. t)\<rparr>"

definition options4 :: "string \<Rightarrow> string coptions" where
  "options4 x = \<lparr>delimiters = None, sourceRange = False, customWarn = False, others = x\<rparr>"

definition cstate4 :: "string cstate" where
  "cstate4 = \<lparr>cache = Map.empty, nextRef = 0, compileCalls = [], warned = [], tipped = []\<rparr>"

lemma cacheKey_cong:
  "delimiters o2 = delimiters o1 \<Longrightarrow> cacheKey (o2\<lparr>customWarn := False\<rparr>) t = cacheKey (o1\<lparr>customWarn := False\<rparr>) t"
  by (simp add: cacheKey_def)

lemma compileToFunctions_cached:
  assumes "compileToFunctions env t o1 s0 = (s1, Inr r1)"
  shows "cache s1 (cacheKey (o1\<lparr>customWarn := False\<rparr>) t) = Some r1"
  using assms
  by (auto simp: compileToFunctions_def Let_def split: option.splits sum.splits prod.splits)

text \<open>
  C4. After a call of \<^verbatim>\<open>compileToFunctions\<close> that returned, a second call with the same
  template and the same delimiters returns the very object of the first call (the same
  \<open>ref\<close>), without calling \<^verbatim>\<open>compile\<close>, and leaves the cache as it is. In every call
  \<^verbatim>\<open>compile\<close> runs exactly when the cache has nothing under the key.
\<close>

theorem compileToFunctions_hit:
  assumes first: "compileToFunctions env t o1 s0 = (s1, Inr r1)"
    and same: "delimiters o2 = delimiters o1"
  shows "\<exists>s2. compileToFunctions env t o2 s1 = (s2, Inr r1) \<and>
               compileCalls s2 = compileCalls s1 \<and> cache s2 = cache s1 \<and>
               nextRef s2 = nextRef s1 \<and>
         (\<forall>s t' o'. length (compileCalls (fst (compileToFunctions env t' o' s))) =
               length (compileCalls s) +
               (if cache s (cacheKey (o'\<lparr>customWarn := False\<rparr>) t') = None then 1 else 0))"
proof -
  from compileToFunctions_cached[OF first] cacheKey_cong[OF same]
  have c: "cache s1 (cacheKey (o2\<lparr>customWarn := False\<rparr>) t) = Some r1" by simp
  have g: "\<And>s t' o'. length (compileCalls (fst (compileToFunctions env t' o' s))) =
               length (compileCalls s) +
               (if cache s (cacheKey (o'\<lparr>customWarn := False\<rparr>) t') = None then 1 else 0)"
    by (auto simp: compileToFunctions_def Let_def split: option.splits sum.splits prod.splits)
  from c have "compileToFunctions env t o2 s1 = (s1\<lparr>warned := warned s1 @ cspWarning env\<rparr>, Inr r1)"
    by (simp add: compileToFunctions_def Let_def)
  with g show ?thesis by simp
qed

text \<open>
  A compiler whose \<^verbatim>\<open>compile\<close> succeeds, called twice on the same template with no
  delimiters (the second time with other options besides): the second call returns the
  object of the first, and \<^verbatim>\<open>compile\<close> has been called once.
\<close>

theorem compileToFunctions_hit_witness:
  "snd (compileToFunctions env4 ''<p>{{ m }}</p>'' (options4 ''a'') cstate4) =
     Inr \<lparr>ref = 0, resRender = Fn ''with(this){}'', resStaticRenderFns = [Fn ''s0'']\<rparr> \<and>
   snd (compileToFunctions env4 ''<p>{{ m }}</p>'' (options4 ''b'')
          (fst (compileToFunctions env4 ''<p>{{ m }}</p>'' (options4 ''a'') cstate4))) =
     Inr \<lparr>ref = 0, resRender = Fn ''with(this){}'', resStaticRenderFns = [Fn ''s0'']\<rparr> \<and>
   length (compileCalls (fst (compileToFunctions env4 ''<p>{{ m }}</p>'' (options4 ''b'')
          (fst (compileToFunctions env4 ''<p>{{ m }}</p>'' (options4 ''a'') cstate4))))) = 1"
proof -
  let ?r = "\<lparr>ref = 0, resRender = Fn ''with(this){}'', resStaticRenderFns = [Fn ''s0'']\<rparr>"
  let ?s1 = "fst (compileToFunctions env4 ''<p>{{ m }}</p>'' (options4 ''a'') cstate4)"
  have r: "snd (compileToFunctions env4 ''<p>{{ m }}</p>'' (options4 ''a'') cstate4) = Inr ?r"
    by (simp add: compileToFunctions_def env4_def options4_def cstate4_def cacheKey_def
        createFunction_def cspWarning_def Let_def)
  have n: "length (compileCalls ?s1) = 1"
    by (simp add: compileToFunctions_def env4_def options4_def cstate4_def cacheKey_def
        createFunction_def cspWarning_def Let_def)
  have first: "compileToFunctions env4 ''<p>{{ m }}</p>'' (options4 ''a'') cstate4 = (?s1, Inr ?r)"
    using r by (simp add: prod_eq_iff)
  have same: "delimiters (options4 ''b'') = delimiters (options4 ''a'')"
    by (simp add: options4_def)
  from compileToFunctions_hit[OF first same] obtain s2 where
    "compileToFunctions env4 ''<p>{{ m }}</p>'' (options4 ''b'') ?s1 = (s2, Inr ?r)"
    "compileCalls s2 = compileCalls ?s1"
    by (elim exE conjE)
  with r n show ?thesis by simp
qed

section \<open>Reactive properties (core/observer/index.js)\<close>

text \<open>The object a reference points to; a reference past the heap points to nothing.\<close>

definition lookup :: "world \<Rightarrow> nat \<Rightarrow> jsobj option" where
  "lookup s r = (if r < length (heap s) then Some (heap s ! r) else None)"

definition store :: "nat \<Rightarrow> jsobj \<Rightarrow> world \<Rightarrow> world" where
  "store r obj s = s\<lparr>heap := (heap s)[r := obj]\<rparr>"

text \<open>\<^verbatim>\<open>new Dep()\<close>: \<^verbatim>\<open>this.id = uid++; this.subs = []\<close>.\<close>

definition newDep :: "world \<Rightarrow> world \<times> nat" where
  "newDep s = (s\<lparr>depUid := Suc (depUid s), subs := (subs s)(depUid s := [])\<rparr>, depUid s)"

text \<open>The own property under a key, and \<^verbatim>\<open>Object.defineProperty\<close>: a key that exists
  keeps its place, a new key comes last.\<close>

definition ownDesc :: "jsobj \<Rightarrow> jskey \<Rightarrow> descriptor option" where
  "ownDesc obj k = map_of (props obj) k"

fun putAssoc :: "jskey \<Rightarrow> descriptor \<Rightarrow> (jskey \<times> descriptor) list \<Rightarrow> (jskey \<times> descriptor) list" where
  "putAssoc k d [] = [(k, d)]"
| "putAssoc k d ((k', d') # ps) = (if k' = k then (k, d) # ps else (k', d') # putAssoc k d ps)"

definition putDesc :: "jskey \<Rightarrow> descriptor \<Rightarrow> jsobj \<Rightarrow> jsobj" where
  "putDesc k d obj = obj\<lparr>props := putAssoc k d (props obj)\<rparr>"

fun enumerable :: "descriptor \<Rightarrow> bool" where
  "enumerable (Data v w e c) = e"
| "enumerable (Accessor g st cell e c) = e"
| "enumerable (Reactive d v co sh cu g st cell) = True"

fun configurable :: "descriptor \<Rightarrow> bool" where
  "configurable (Data v w e c) = c"
| "configurable (Accessor g st cell e c) = c"
| "configurable (Reactive d v co sh cu g st cell) = True"

text \<open>\<^verbatim>\<open>Object.keys(obj)\<close>\<close>

definition objectKeys :: "jsobj \<Rightarrow> jskey list" where
  "objectKeys obj = map fst (filter (\<lambda>(k, d). enumerable d) (props obj))"

text \<open>The Dep id of the Observer of a value, if the value is an object that has one
  (\<^verbatim>\<open>e && e.__ob__ && e.__ob__.dep\<close>).\<close>

definition obDepOf :: "jsval \<Rightarrow> world \<Rightarrow> nat option" where
  "obDepOf v s =
     (case v of
        Ref r \<Rightarrow> (case lookup s r of None \<Rightarrow> None | Some obj \<Rightarrow> map_option obDep (ob obj))
      | _ \<Rightarrow> None)"

text \<open>The elements of a value that is an array (\<^verbatim>\<open>Array.isArray\<close>).\<close>

definition arrayItems :: "jsval \<Rightarrow> world \<Rightarrow> jsval list option" where
  "arrayItems v s =
     (case v of
        Ref r \<Rightarrow> (case lookup s r of None \<Rightarrow> None | Some obj \<Rightarrow> items obj)
      | _ \<Rightarrow> None)"

text \<open>
  \<^verbatim>\<open>dependArray\<close>. An array that contains itself makes the recursion endless, which a
  JavaScript engine ends with a \<^verbatim>\<open>RangeError\<close> when the call stack is full: the first
  argument is the depth of calls still available.
\<close>

definition rangeError :: jsval where
  "rangeError = Str ''RangeError: Maximum call stack size exceeded''"

definition typeError :: jsval where
  "typeError = Str ''TypeError''"

fun dependArray :: "nat \<Rightarrow> jsval list \<Rightarrow> world \<Rightarrow> world \<times> jsval option" where
  "dependArray 0 vs s = (s, Some rangeError)"
| "dependArray (Suc n) [] s = (s, None)"
| "dependArray (Suc n) (e # es) s =
     (let s1 = (case obDepOf e s of Some d \<Rightarrow> depend d s | None \<Rightarrow> s) in
      case (case arrayItems e s1 of Some vs \<Rightarrow> dependArray n vs s1 | None \<Rightarrow> (s1, None)) of
        (s2, Some x) \<Rightarrow> (s2, Some x)
      | (s2, None) \<Rightarrow> dependArray (Suc n) es s2)"

text \<open>
  Reading a property (\<^verbatim>\<open>obj[key]\<close> on an own property). For a reactive property this is
  \<^verbatim>\<open>reactiveGetter\<close>. The result is the value (\<open>Inr\<close>) or the exception (\<open>Inl\<close>).
\<close>

fun propGet :: "nat \<Rightarrow> descriptor \<Rightarrow> world \<Rightarrow> world \<times> (jsval + jsval)" where
  "propGet depth (Data v w e c) s = (s, Inr v)"
| "propGet depth (Accessor g st cell e c) s =
     (case g of None \<Rightarrow> (s, Inr Undefined) | Some getter \<Rightarrow> (s, getter cell))"
| "propGet depth (Reactive dep val childOb shallow custom g st cell) s =
     (case (case g of Some getter \<Rightarrow> getter cell | None \<Rightarrow> Inr val) of
        Inl e \<Rightarrow> (s, Inl e)
      | Inr v \<Rightarrow>
          (case target s of
             None \<Rightarrow> (s, Inr v)
           | Some w \<Rightarrow>
               let s1 = depend dep s in
               (case childOb of
                  None \<Rightarrow> (s1, Inr v)
                | Some cd \<Rightarrow>
                    let s2 = depend cd s1 in
                    (case arrayItems v s2 of
                       None \<Rightarrow> (s2, Inr v)
                     | Some vs \<Rightarrow>
                         (case dependArray depth vs s2 of
                            (s3, Some x) \<Rightarrow> (s3, Inl x)
                          | (s3, None) \<Rightarrow> (s3, Inr v))))))"

text \<open>The tasks of \<^verbatim>\<open>observe\<close>, which calls itself through \<^verbatim>\<open>walk\<close>,
  \<^verbatim>\<open>observeArray\<close> and \<^verbatim>\<open>defineReactive\<close>: \<^verbatim>\<open>observe(value)\<close>; the rest of the loop
  of \<^verbatim>\<open>walk(obj)\<close> over the keys; the rest of the loop of \<^verbatim>\<open>observeArray(items)\<close>;
  \<^verbatim>\<open>defineReactive(obj, key, val, customSetter, shallow)\<close>, where \<open>None\<close> for \<^verbatim>\<open>val\<close>
  is the call with two arguments.\<close>

datatype task =
    TObserve jsval
  | TWalk nat "jskey list"
  | TItems "jsval list"
  | TDefine nat jskey "jsval option" bool bool

definition unmodelled :: jsval where
  "unmodelled = Str ''defineReactive on a reactive property''"

text \<open>The test of \<^verbatim>\<open>observe\<close> for making a new Observer.\<close>

definition observable :: "world \<Rightarrow> jsobj \<Rightarrow> bool" where
  "observable s obj =
     (shouldObserve s \<and> \<not> serverRendering s \<and> (items obj \<noteq> None \<or> plain obj) \<and>
      extensible obj \<and> \<not> isVue obj)"

fun rank :: "task \<Rightarrow> nat" where
  "rank (TObserve v) = 0"
| "rank (TDefine r k v cu sh) = 1"
| "rank (TWalk r ks) = 2 + length ks"
| "rank (TItems vs) = 2 + length vs"

definition unobserved :: "world \<Rightarrow> nat" where
  "unobserved s = length (filter (\<lambda>obj. ob obj = None) (heap s))"

text \<open>
  The head of \<^verbatim>\<open>observe\<close> and the constructor of \<^verbatim>\<open>Observer\<close> up to the loop: when a
  new Observer is made, the reference, the object and the state in which the object has
  its \<^verbatim>\<open>__ob__\<close>, with a new Dep and \<^verbatim>\<open>vmCount = 0\<close>.
\<close>

definition observeNew :: "jsval \<Rightarrow> world \<Rightarrow> (nat \<times> jsobj \<times> world) option" where
  "observeNew v s =
     (case v of
        Ref r \<Rightarrow>
          (case lookup s r of
             None \<Rightarrow> None
           | Some obj \<Rightarrow>
               if isVNode obj then None
               else if ob obj \<noteq> None then None
               else if observable s obj then
                 (case newDep s of
                    (s1, d) \<Rightarrow> Some (r, obj, store r (obj\<lparr>ob := Some \<lparr>obDep = d, vmCount = 0\<rparr>\<rparr>) s1))
               else None)
      | _ \<Rightarrow> None)"

text \<open>
  \<^verbatim>\<open>defineReactive\<close> up to \<^verbatim>\<open>observe(val)\<close>: the new Dep, the early return for a
  property that is not configurable, \<^verbatim>\<open>getter\<close> and \<^verbatim>\<open>setter\<close>, and \<^verbatim>\<open>val\<close>, read
  from the object when the call has two arguments and the property has no getter or has
  a setter (a key the object does not own reads as \<^verbatim>\<open>undefined\<close>). The result is what
  \<^verbatim>\<open>defineReactive\<close> ends with there (\<open>Inl\<close>), or the state
  and the variables of the closure (\<open>Inr\<close>). A property that \<^verbatim>\<open>defineReactive\<close> has
  installed before would be wrapped a second time, which this model does not follow.
\<close>

record closure =
  c_dep :: nat
  c_val :: jsval
  c_getter :: "(jsval \<Rightarrow> jsval + jsval) option"
  c_setter :: "(jsval \<Rightarrow> jsval \<Rightarrow> jsval) option"
  c_cell :: jsval

definition definePrepare ::
  "nat \<Rightarrow> nat \<Rightarrow> jskey \<Rightarrow> jsval option \<Rightarrow> world \<Rightarrow> (world \<times> jsval option) + (world \<times> closure)" where
  "definePrepare depth r k v0 s =
     (case newDep s of
        (s1, dep) \<Rightarrow>
          (case lookup s1 r of
             None \<Rightarrow> Inl (s1, Some typeError)
           | Some obj \<Rightarrow>
               (case ownDesc obj k of
                  Some (Reactive d' v' co' sh' cu' g' st' cell') \<Rightarrow> Inl (s1, Some unmodelled)
                | property \<Rightarrow>
                    if (case property of Some p \<Rightarrow> \<not> configurable p | None \<Rightarrow> False)
                    then Inl (s1, None)
                    else
                      let getter = (case property of Some (Accessor g st cell e c) \<Rightarrow> g | _ \<Rightarrow> None);
                          setter = (case property of Some (Accessor g st cell e c) \<Rightarrow> st | _ \<Rightarrow> None);
                          cell = (case property of Some (Accessor g st cell e c) \<Rightarrow> cell | _ \<Rightarrow> Undefined)
                      in
                      (case (if (getter = None \<or> setter \<noteq> None) \<and> v0 = None
                             then (case property of
                                     Some p \<Rightarrow> snd (propGet depth p s1)
                                   | None \<Rightarrow> Inr Undefined)
                             else Inr (case v0 of Some v \<Rightarrow> v | None \<Rightarrow> Undefined)) of
                         Inl e \<Rightarrow> Inl (s1, Some e)
                       | Inr val \<Rightarrow>
                           Inr (s1, \<lparr>c_dep = dep, c_val = val, c_getter = getter,
                                     c_setter = setter, c_cell = cell\<rparr>)))))"

text \<open>The end of \<^verbatim>\<open>defineReactive\<close>: \<^verbatim>\<open>Object.defineProperty\<close> with the accessor pair
  of the closure, \<^verbatim>\<open>childOb\<close> being what \<^verbatim>\<open>observe(val)\<close> returned. An object that
  is not extensible takes no new key (\<^verbatim>\<open>TypeError\<close>).\<close>

definition defineInstall :: "nat \<Rightarrow> jskey \<Rightarrow> closure \<Rightarrow> bool \<Rightarrow> bool \<Rightarrow> world \<Rightarrow> world \<times> jsval option" where
  "defineInstall r k c custom shallow s =
     (case lookup s r of
        None \<Rightarrow> (s, Some typeError)
      | Some obj \<Rightarrow>
          if ownDesc obj k = None \<and> \<not> extensible obj then (s, Some typeError)
          else
            (store r (putDesc k
               (Reactive (c_dep c) (c_val c) (if shallow then None else obDepOf (c_val c) s)
                  shallow custom (c_getter c) (c_setter c) (c_cell c)) obj) s, None))"

text \<open>
  \<^verbatim>\<open>observe\<close>, \<^verbatim>\<open>walk\<close>, \<^verbatim>\<open>observeArray\<close> and \<^verbatim>\<open>defineReactive\<close>. The second
  component of the result is the exception, if one is thrown; what \<^verbatim>\<open>observe\<close> returns
  is read from the object afterwards (\<open>obDepOf\<close>).
\<close>

function (domintros) run :: "nat \<Rightarrow> task \<Rightarrow> world \<Rightarrow> world \<times> jsval option" where
  "run depth (TObserve v) s =
     (case observeNew v s of
        None \<Rightarrow> (s, None)
      | Some (r, obj, s2) \<Rightarrow>
          (case items obj of
             Some vs \<Rightarrow> run depth (TItems vs) s2
           | None \<Rightarrow> run depth (TWalk r (objectKeys obj)) s2))"
| "run depth (TWalk r []) s = (s, None)"
| "run depth (TWalk r (k # ks)) s =
     (case run depth (TDefine r k None False False) s of
        (s1, Some e) \<Rightarrow> (s1, Some e)
      | (s1, None) \<Rightarrow> run depth (TWalk r ks) s1)"
| "run depth (TItems []) s = (s, None)"
| "run depth (TItems (v # vs)) s =
     (case run depth (TObserve v) s of
        (s1, Some e) \<Rightarrow> (s1, Some e)
      | (s1, None) \<Rightarrow> run depth (TItems vs) s1)"
| "run depth (TDefine r k v0 custom shallow) s =
     (case definePrepare depth r k v0 s of
        Inl res \<Rightarrow> res
      | Inr (s1, c) \<Rightarrow>
          (case (if shallow then (s1, None) else run depth (TObserve (c_val c)) s1) of
             (s3, Some e) \<Rightarrow> (s3, Some e)
           | (s3, None) \<Rightarrow> defineInstall r k c custom shallow s3))"
  by pat_completeness auto

lemma unobserved_store_same:
  "r < length (heap s) \<Longrightarrow> ob obj = ob (heap s ! r) \<Longrightarrow> unobserved (store r obj s) = unobserved s"
proof -
  assume r: "r < length (heap s)" and o: "ob obj = ob (heap s ! r)"
  have "\<And>xs. r < length xs \<Longrightarrow> ob obj = ob (xs ! r) \<Longrightarrow>
          length (filter (\<lambda>x. ob x = None) (xs[r := obj])) = length (filter (\<lambda>x. ob x = None) xs)"
  proof -
    fix xs :: "jsobj list"
    show "r < length xs \<Longrightarrow> ob obj = ob (xs ! r) \<Longrightarrow>
          length (filter (\<lambda>x. ob x = None) (xs[r := obj])) = length (filter (\<lambda>x. ob x = None) xs)"
      by (induction xs arbitrary: r) (auto split: nat.splits)
  qed
  with r o show ?thesis by (simp add: unobserved_def store_def)
qed

lemma unobserved_mark:
  "r < length (heap s) \<Longrightarrow> ob (heap s ! r) = None \<Longrightarrow> ob obj \<noteq> None \<Longrightarrow>
     unobserved (store r obj s) < unobserved s"
proof -
  assume r: "r < length (heap s)" and o: "ob (heap s ! r) = None" and n: "ob obj \<noteq> None"
  have "\<And>xs. r < length xs \<Longrightarrow> ob (xs ! r) = None \<Longrightarrow>
          length (filter (\<lambda>x. ob x = None) (xs[r := obj])) < length (filter (\<lambda>x. ob x = None) xs)"
  proof -
    fix xs :: "jsobj list"
    show "r < length xs \<Longrightarrow> ob (xs ! r) = None \<Longrightarrow>
          length (filter (\<lambda>x. ob x = None) (xs[r := obj])) < length (filter (\<lambda>x. ob x = None) xs)"
      using n by (induction xs arbitrary: r) (auto split: nat.splits)
  qed
  with r o show ?thesis by (simp add: unobserved_def store_def)
qed

lemma newDep_heap [simp]:
  "heap (fst (newDep s)) = heap s" "unobserved (fst (newDep s)) = unobserved s"
  by (simp_all add: newDep_def unobserved_def)

lemma store_length [simp]: "length (heap (store r obj s)) = length (heap s)"
  by (simp add: store_def)

lemma lookup_Some: "lookup s r = Some obj \<longleftrightarrow> r < length (heap s) \<and> obj = heap s ! r"
  by (auto simp: lookup_def)

lemma lookup_newDep [simp]: "lookup (fst (newDep s)) r = lookup s r"
  by (simp add: lookup_def)

lemma ob_putDesc [simp]: "ob (putDesc k d obj) = ob obj"
  by (simp add: putDesc_def)

lemma observeNew_shrinks:
  assumes "observeNew v s = Some (r, obj, s2)"
  shows "unobserved s2 < unobserved s \<and> length (heap s2) = length (heap s)"
proof -
  from assms obtain s1 d where v: "v = Ref r" and l: "lookup s r = Some obj"
    and o: "ob obj = None" and nd: "newDep s = (s1, d)"
    and s2: "s2 = store r (obj\<lparr>ob := Some \<lparr>obDep = d, vmCount = 0\<rparr>\<rparr>) s1"
    by (auto simp: observeNew_def split: jsval.splits option.splits if_splits prod.splits)
  from nd have h1: "heap s1 = heap s" "unobserved s1 = unobserved s"
    using newDep_heap[of s] by simp_all
  from l have "r < length (heap s)" "obj = heap s ! r" by (simp_all add: lookup_Some)
  with o h1 unobserved_mark[of r s1 "obj\<lparr>ob := Some \<lparr>obDep = d, vmCount = 0\<rparr>\<rparr>"]
  show ?thesis by (simp add: s2)
qed

lemma newDep_heapD: "newDep s = (s1, d) \<Longrightarrow> heap s1 = heap s"
  by (auto simp: newDep_def)

lemma definePrepare_state:
  "(case definePrepare depth r k v0 s of
      Inl (s1, e) \<Rightarrow> s1 = fst (newDep s)
    | Inr (s1, c) \<Rightarrow> s1 = fst (newDep s))"
  unfolding definePrepare_def Let_def
  by (cases "newDep s") (auto split: option.split descriptor.split sum.split)

lemma definePrepare_heap:
  "definePrepare depth r k v0 s = Inl (s1, e) \<Longrightarrow> heap s1 = heap s"
  "definePrepare depth r k v0 s = Inr (s1, c) \<Longrightarrow> heap s1 = heap s"
  using definePrepare_state[where depth=depth and r=r and k=k and ?v0.0=v0 and s=s] by simp_all

lemma defineInstall_shrinks:
  "unobserved (fst (defineInstall r k c custom shallow s)) = unobserved s \<and>
   length (heap (fst (defineInstall r k c custom shallow s))) = length (heap s)"
  by (auto simp: defineInstall_def lookup_Some unobserved_store_same split: option.splits)

lemma unobserved_heap: "heap s1 = heap s \<Longrightarrow> unobserved s1 = unobserved s"
  by (simp add: unobserved_def)

lemma run_shrinks:
  "run_dom (depth, t, s) \<Longrightarrow>
     unobserved (fst (run depth t s)) \<le> unobserved s \<and>
     length (heap (fst (run depth t s))) = length (heap s)"
proof (induction depth t s rule: run.pinduct)
  case (1 depth v s)
  show ?case
  proof (cases "observeNew v s")
    case None
    with 1(1) show ?thesis by (simp add: run.psimps)
  next
    case (Some a)
    obtain r obj s2 where a: "a = (r, obj, s2)" by (cases a)
    from observeNew_shrinks[of v s r obj s2] Some a
    have lt: "unobserved s2 < unobserved s \<and> length (heap s2) = length (heap s)" by simp
    show ?thesis
    proof (cases "items obj")
      case None
      from 1(2)[OF Some[unfolded a] refl refl None] lt Some a None 1(1) show ?thesis
        by (simp add: run.psimps)
    next
      case (Some vs)
      from 1(3)[OF \<open>observeNew v s = Some a\<close>[unfolded a] refl refl Some] lt
        \<open>observeNew v s = Some a\<close> a Some 1(1) show ?thesis
        by (simp add: run.psimps)
    qed
  qed
next
  case (2 depth r s)
  then show ?case by (simp add: run.psimps)
next
  case (3 depth r k ks s)
  obtain s1 e where d: "run depth (TDefine r k None False False) s = (s1, e)"
    by (cases "run depth (TDefine r k None False False) s")
  from 3(2) d have a: "unobserved s1 \<le> unobserved s \<and> length (heap s1) = length (heap s)" by simp
  show ?case
  proof (cases e)
    case None
    from 3(3)[OF d[symmetric] None] a d None 3(1) show ?thesis
      by (simp add: run.psimps)
  next
    case (Some x)
    with a d 3(1) show ?thesis by (simp add: run.psimps)
  qed
next
  case (4 depth s)
  then show ?case by (simp add: run.psimps)
next
  case (5 depth v vs s)
  obtain s1 e where d: "run depth (TObserve v) s = (s1, e)"
    by (cases "run depth (TObserve v) s")
  from 5(2) d have a: "unobserved s1 \<le> unobserved s \<and> length (heap s1) = length (heap s)" by simp
  show ?case
  proof (cases e)
    case None
    from 5(3)[OF d[symmetric] None] a d None 5(1) show ?thesis
      by (simp add: run.psimps)
  next
    case (Some x)
    with a d 5(1) show ?thesis by (simp add: run.psimps)
  qed
next
  case (6 depth r k v0 custom shallow s)
  show ?case
  proof (cases "definePrepare depth r k v0 s")
    case (Inl res)
    obtain s1 e where res: "res = (s1, e)" by (cases res)
    from Inl res have "heap s1 = heap s" by (simp add: definePrepare_heap(1))
    then have "unobserved s1 = unobserved s" "length (heap s1) = length (heap s)"
      by (simp_all add: unobserved_def)
    with Inl res 6(1) show ?thesis
      by (simp add: run.psimps)
  next
    case (Inr b)
    obtain s1 c where b: "b = (s1, c)" by (cases b)
    from Inr b have "heap s1 = heap s" by (simp add: definePrepare_heap(2))
    then have h1: "unobserved s1 = unobserved s" "length (heap s1) = length (heap s)"
      by (simp_all add: unobserved_def)
    obtain s3 e3 where o: "(if shallow then (s1, None) else run depth (TObserve (c_val c)) s1) = (s3, e3)"
      by (cases "if shallow then (s1, None) else run depth (TObserve (c_val c)) s1")
    have a: "unobserved s3 \<le> unobserved s \<and> length (heap s3) = length (heap s)"
    proof (cases shallow)
      case True
      with o h1 show ?thesis by simp
    next
      case False
      from 6(2)[OF Inr[unfolded b] refl False] o False h1 show ?thesis
        by simp
    qed
    show ?thesis
    proof (cases e3)
      case None
      with Inr b o a defineInstall_shrinks[of r k c custom shallow s3] 6(1) show ?thesis
        by (simp add: run.psimps)
    next
      case (Some x)
      with Inr b o a 6(1) show ?thesis by (simp add: run.psimps)
    qed
  qed
qed

termination run
proof (relation "inv_image (less_than <*lex*> less_than) (\<lambda>(depth, t, s). (unobserved s, rank t))",
    goal_cases)
  case 1
  show ?case by (intro wf_inv_image wf_lex_prod wf_less_than)
next
  case (2 depth v s x2 x y xa ya)
  then have "observeNew v s = Some (x, xa, ya)" by simp
  from observeNew_shrinks[OF this] show ?case by simp
next
  case (3 depth v s x2 x y xa ya x2a)
  then have "observeNew v s = Some (x, xa, ya)" by simp
  from observeNew_shrinks[OF this] show ?case by simp
next
  case (4 depth r k ks s)
  show ?case by simp
next
  case (5 depth r k ks s x y)
  from 5(1) have "x = fst (run depth (TDefine r k None False False) s)" by (metis fst_conv)
  with run_shrinks[OF 5(3)] have "unobserved x \<le> unobserved s" by simp
  then show ?case by auto
next
  case (6 depth v vs s)
  show ?case by simp
next
  case (7 depth v vs s x y)
  from 7(1) have "x = fst (run depth (TObserve v) s)" by (metis fst_conv)
  with run_shrinks[OF 7(3)] have "unobserved x \<le> unobserved s" by simp
  then show ?case by auto
next
  case (8 depth r k v0 custom shallow s b x y)
  then have "definePrepare depth r k v0 s = Inr (x, y)" by simp
  then have "heap x = heap s" by (rule definePrepare_heap(2))
  then have "unobserved x = unobserved s" by (simp add: unobserved_def)
  then show ?case by simp
qed



definition defineReactive ::
  "nat \<Rightarrow> nat \<Rightarrow> jskey \<Rightarrow> jsval option \<Rightarrow> bool \<Rightarrow> bool \<Rightarrow> world \<Rightarrow> world \<times> jsval option" where
  "defineReactive depth r k v0 custom shallow s = run depth (TDefine r k v0 custom shallow) s"


definition setDesc :: "nat \<Rightarrow> jskey \<Rightarrow> descriptor \<Rightarrow> world \<Rightarrow> world" where
  "setDesc r k d s = (case lookup s r of None \<Rightarrow> s | Some obj \<Rightarrow> store r (putDesc k d obj) s)"

















subsection \<open>What observe leaves unchanged\<close>



definition frame :: "world \<Rightarrow> world \<Rightarrow> bool" where
  "frame s s' =
     (trace s' = trace s \<and> production s' = production s \<and> configAsync s' = configAsync s \<and>
      target s' = target s \<and> targetStack s' = targetStack s \<and> watchers s' = watchers s \<and>
      shouldObserve s' = shouldObserve s \<and> serverRendering s' = serverRendering s \<and>
      objectPrototype s' = objectPrototype s \<and>
      depUid s \<le> depUid s' \<and> (\<forall>d. d < depUid s \<longrightarrow> subs s' d = subs s d))"

lemma frame_refl: "frame s s"
  by (simp add: frame_def)


lemma frame_store: "frame s (store r obj s)"
  by (simp add: frame_def store_def)






declare run.simps [simp del]






lemma observe_undefined: "run depth (TObserve Undefined) s = (s, None)"
  by (simp add: run.simps observeNew_def)


lemma frame_setDesc: "frame s (setDesc r k d s)"
  by (simp add: setDesc_def frame_refl frame_store split: option.split)










lemma trace_store [simp]: "trace (store r obj s) = trace s"
  by (simp add: store_def)


subsection \<open>Writes to a reactive property\<close>

text \<open>Objects, states and an \<^verbatim>\<open>update()\<close> used as concrete inputs below.\<close>

definition plainObj :: "(jskey \<times> descriptor) list \<Rightarrow> jsobj" where
  "plainObj ps = \<lparr>props = ps, items = None, ob = None, isVue = False, isVNode = False,
     plain = True, extensible = True, inherited = []\<rparr>"



definition reactiveA :: descriptor where
  "reactiveA = Reactive 1 (Num 1) None False False None None Undefined"

definition worldA :: world where
  "worldA = initial\<lparr>heap :=
       [(plainObj [(Name ''a'', reactiveA)])\<lparr>ob := Some \<lparr>obDep = 0, vmCount = 0\<rparr>\<rparr>,
        plainObj [(Name ''x'', Data (Num 2) True True True)]],
     depUid := 2, subs := (\<lambda>d. [])(1 := [7, 3])\<rparr>"











text \<open>
  C10. Reading a reactive property while no Watcher is active (\<^verbatim>\<open>Dep.target\<close> is null)
  returns its value, which is what the getter of the application returns when the
  property wraps one and \<^verbatim>\<open>val\<close> otherwise, and leaves the whole state as it is: the
  subscriber lists of the Deps, the dependency sets of the Watchers and the target stack.
  \<^verbatim>\<open>Dep.depend()\<close> with no active target changes nothing.
\<close>

theorem reactiveGetter_no_target:
  assumes "target s = None"
  shows "propGet depth (Reactive dep val childOb shallow custom g st cell) s =
           (s, case g of Some getter \<Rightarrow> getter cell | None \<Rightarrow> Inr val) \<and>
         depend d s = s"
  using assms by (simp add: depend_def split: option.split sum.split)

text \<open>With no active target a read of the property \<open>a\<close> gives 1 and its Dep keeps its two
  subscribers.\<close>

theorem reactiveGetter_no_target_witness:
  "target worldA = None \<and> propGet 3 reactiveA worldA = (worldA, Inr (Num 1)) \<and>
   depend 1 worldA = worldA \<and> subs worldA 1 = [7, 3]"
proof -
  have t: "target worldA = None" by (simp add: worldA_def initial_def)
  from reactiveGetter_no_target[OF t, of 3 1 "Num 1" None False False None None Undefined 1]
  show ?thesis by (simp add: t reactiveA_def) (simp add: worldA_def)
qed









end
